theory Spec2Isabelle
  imports Complex_Main "HOL-Library.Word" "HOL-Library.Sublist" "HOL-Library.Log_Nat"
begin

section \<open>Bytes, strings and Python slices\<close>

text \<open>
  A Python \<^verbatim>\<open>bytes\<close> value is a list of 8-bit words. A Python \<^verbatim>\<open>str\<close> is
  represented by the list of the bytes of its UTF-8 encoding, written as an Isabelle
  \<^typ>\<open>string\<close>: two texts are equal exactly when their encodings are, and
  \<^verbatim>\<open>s.encode()\<close> reads the bytes off.
\<close>

type_synonym byte = "8 word"
type_synonym bytes = "byte list"

definition encode :: "string \<Rightarrow> bytes" where
  "encode s = map of_char s"

text \<open>
  \<^verbatim>\<open>xs[:k]\<close> and \<^verbatim>\<open>xs[k:]\<close> for any integer \<open>k\<close>: a negative index counts from
  the end, and an index outside the sequence is clamped, so a slice never raises.
\<close>

definition slice_index :: "'a list \<Rightarrow> int \<Rightarrow> nat" where
  "slice_index xs k =
     (let n = int (length xs); j = (if k < 0 then n + k else k)
      in nat (min n (max 0 j)))"

definition slice_to :: "'a list \<Rightarrow> int \<Rightarrow> 'a list" where
  "slice_to xs k = take (slice_index xs k) xs"

definition slice_from :: "'a list \<Rightarrow> int \<Rightarrow> 'a list" where
  "slice_from xs k = drop (slice_index xs k) xs"

section \<open>Python floats\<close>

text \<open>
  Timestamps are Python floats (\<^verbatim>\<open>now_ms()\<close> returns \<^verbatim>\<open>time.time() * 1000.0\<close>): IEEE
  binary64 numbers. A finite float is the rational number it stands for, and \<^verbatim>\<open>a - b\<close>
  on two floats is the exact difference rounded to the nearest number with a 53-bit
  significand, ties to the even significand: \<open>fl (a - b)\<close>. The rounding below has no
  bound on the exponent. A difference of two binary64 numbers too small for a normal
  binary64 number already fits 53 bits and is returned unchanged, as IEEE does; a
  difference of \<open>2 ^ 1024\<close> or more, which IEEE turns into an infinity, is outside the
  model, and so are infinities and NaN as timestamps. Comparing a float with a Python
  integer or float is exact. Integers below \<open>2 ^ 53\<close> in absolute value are floats, and on
  them \<open>fl (a - b)\<close> is the exact difference that Python computes on integers too.
\<close>

definition round_half_even :: "rat \<Rightarrow> int" where
  "round_half_even q =
     (let f = \<lfloor>q\<rfloor>; r = q - of_int f
      in if r < 1 / 2 then f else if 1 / 2 < r then f + 1 else if even f then f else f + 1)"

text \<open>For \<open>x > 0\<close>, the exponent \<open>e\<close> with \<open>2 ^ e \<le> x < 2 ^ (e + 1)\<close>.\<close>

definition float_exponent :: "rat \<Rightarrow> int" where
  "float_exponent x = (if 1 \<le> x then bitlen \<lfloor>x\<rfloor> - 1 else - bitlen (\<lceil>1 / x\<rceil> - 1))"

definition fl :: "rat \<Rightarrow> rat" where
  "fl x =
     (if x = 0 then 0
      else let u = 2 powi (float_exponent \<bar>x\<bar> - 52)
           in sgn x * of_int (round_half_even (\<bar>x\<bar> / u)) * u)"

section \<open>security.py: the authentication tag\<close>

text \<open>
  \<^verbatim>\<open>SECRET = os.environ.get("HMAC_SECRET", "gateway-secret-2025").encode()\<close> is
  evaluated once, when the module is loaded. The process environment maps variable names
  to Python texts. \<^verbatim>\<open>os.environ\<close> decodes the bytes of the environment as UTF-8 with the
  \<^verbatim>\<open>surrogateescape\<close> handler, so a byte that is not part of valid UTF-8 arrives as a
  lone surrogate code point (byte \<^verbatim>\<open>0xFF\<close> as \<^verbatim>\<open>U+DCFF\<close>). Such a text is a list of
  items: a byte of well-formed UTF-8 text, or a lone surrogate. \<^verbatim>\<open>.encode()\<close> returns
  the bytes when there is no surrogate, and raises \<^verbatim>\<open>UnicodeEncodeError\<close> at the first
  one, which aborts the import of the module.
\<close>

datatype env_item = Utf8 char | Surrogate nat

type_synonym env_str = "env_item list"

datatype py_error = UnicodeEncodeError

definition text_of :: "string \<Rightarrow> env_str" where
  "text_of s = map Utf8 s"

fun encode_strict :: "env_str \<Rightarrow> py_error + bytes" where
  "encode_strict [] = Inr []"
| "encode_strict (Surrogate n # cs) = Inl UnicodeEncodeError"
| "encode_strict (Utf8 c # cs) =
     (case encode_strict cs of Inl e \<Rightarrow> Inl e | Inr bs \<Rightarrow> Inr (of_char c # bs))"

type_synonym environ = "string \<rightharpoonup> env_str"

definition environ_get :: "environ \<Rightarrow> string \<Rightarrow> env_str \<Rightarrow> env_str" where
  "environ_get env k dflt = (case env k of None \<Rightarrow> dflt | Some v \<Rightarrow> v)"

definition SECRET :: "environ \<Rightarrow> py_error + bytes" where
  "SECRET env =
     encode_strict (environ_get env ''HMAC_SECRET'' (text_of ''gateway-secret-2025''))"

text \<open>
  \<^verbatim>\<open>hmac.new(key, data, hashlib.sha256).digest()\<close> belongs to the Python standard
  library, not to this repository: it is the parameter \<open>hm\<close> (key first, then data) of
  everything below. HMAC-SHA-256 digests are 32 bytes long; the theorems that need a
  length say so. \<open>key\<close> is the module constant \<^verbatim>\<open>SECRET\<close> of a module that loaded.
\<close>

type_synonym hmac_fn = "bytes \<Rightarrow> bytes \<Rightarrow> bytes"

definition sign :: "hmac_fn \<Rightarrow> bytes \<Rightarrow> bytes \<Rightarrow> bytes" where
  "sign hm key data = slice_to (hm key data) 8"

text \<open>\<^verbatim>\<open>hmac.compare_digest\<close> on two byte strings is equality, in constant time.\<close>

definition verify :: "hmac_fn \<Rightarrow> bytes \<Rightarrow> bytes \<Rightarrow> bytes \<Rightarrow> bool" where
  "verify hm key data tag = (sign hm key data = tag)"

definition attach_auth :: "hmac_fn \<Rightarrow> bytes \<Rightarrow> bytes \<Rightarrow> bytes" where
  "attach_auth hm key payload = payload @ sign hm key payload"

definition strip_and_verify :: "hmac_fn \<Rightarrow> bytes \<Rightarrow> bytes \<Rightarrow> bytes \<times> bool" where
  "strip_and_verify hm key payload =
     (if length payload < 8 then (payload, False)
      else let msg = slice_to payload (- 8); tag = slice_from payload (- 8)
           in (msg, verify hm key msg tag))"

section \<open>utils.py: the message-id counter\<close>

text \<open>
  \<^verbatim>\<open>str(n)\<close> for a Python integer: decimal digits, a minus sign when negative.
  \<open>digit_char\<close> is only applied to numbers below 10.
\<close>

definition digit_char :: "nat \<Rightarrow> char" where
  "digit_char d = ''0123456789'' ! d"

function str_nat :: "nat \<Rightarrow> string" where
  "str_nat n = (if n < 10 then [digit_char n] else str_nat (n div 10) @ [digit_char (n mod 10)])"
  by pat_completeness auto
termination
  by (relation "measure id") auto

declare str_nat.simps [simp del]

definition str_int :: "int \<Rightarrow> string" where
  "str_int i = (if i < 0 then CHR ''-'' # str_nat (nat (- i)) else str_nat (nat i))"

text \<open>
  \<^verbatim>\<open>msg_counter\<close> is a process-wide \<^verbatim>\<open>Counter\<close>; \<^verbatim>\<open>get_next\<close> increments it and
  returns the new value, \<^verbatim>\<open>gen_id(prefix)\<close> renders \<^verbatim>\<open>f"{prefix}{n}"\<close>.
\<close>

record Counter =
  "value" :: int

definition get_next :: "Counter \<Rightarrow> int \<times> Counter" where
  "get_next c = (let c' = c\<lparr>value := value c + 1\<rparr> in (value c', c'))"

definition gen_id :: "string \<Rightarrow> Counter \<Rightarrow> string \<times> Counter" where
  "gen_id pre c = (let (n, c') = get_next c in (pre @ str_int n, c'))"

section \<open>can_bus.py and ethernet_bus.py: messages and buses\<close>

text \<open>
  The two dataclasses. Fields that both declare (\<^verbatim>\<open>ts_ms\<close>, \<^verbatim>\<open>src\<close>, \<^verbatim>\<open>msg_id\<close>)
  are written with the record's name in front. \<^verbatim>\<open>ts_ms\<close> is a number of milliseconds:
  every producer fills it from \<^verbatim>\<open>now_ms()\<close>, a float, whatever the annotation
  \<^verbatim>\<open>int\<close> says. It is kept as the rational value of that float.
\<close>

record CANFrame =
  ts_ms :: rat
  can_id :: int
  dlc :: int
  data :: bytes
  src :: string
  msg_id :: string

record EthernetPacket =
  ts_ms :: rat
  src :: string
  dst :: string
  payload :: bytes
  msg_id :: string
  priority :: int

text \<open>
  A bus is its unbounded FIFO \<^verbatim>\<open>queue.Queue\<close> (head of the list is the next message
  out; \<^verbatim>\<open>put\<close> appends and never blocks) and its two counters. The lock only
  serialises the counter updates of concurrent callers; here calls happen one after
  another.
\<close>

definition put :: "'a list \<Rightarrow> 'a \<Rightarrow> 'a list" where
  "put queue x = queue @ [x]"

record HighPerformanceCANBus =
  q :: "CANFrame list"
  batch_size :: int
  messages_sent :: int
  messages_received :: int

record HighPerformanceEthernetBus =
  q :: "EthernetPacket list"
  batch_size :: int
  packets_sent :: int
  packets_received :: int

definition make_can_bus :: HighPerformanceCANBus where
  "make_can_bus =
     \<lparr>HighPerformanceCANBus.q = [], HighPerformanceCANBus.batch_size = 50,
      messages_sent = 0, messages_received = 0\<rparr>"

definition make_eth_bus :: HighPerformanceEthernetBus where
  "make_eth_bus =
     \<lparr>HighPerformanceEthernetBus.q = [], HighPerformanceEthernetBus.batch_size = 50,
      packets_sent = 0, packets_received = 0\<rparr>"

definition can_send :: "HighPerformanceCANBus \<Rightarrow> CANFrame \<Rightarrow> HighPerformanceCANBus" where
  "can_send bus frame =
     (let bus1 = bus\<lparr>messages_sent := messages_sent bus + 1\<rparr>
      in bus1\<lparr>HighPerformanceCANBus.q := put (HighPerformanceCANBus.q bus1) frame\<rparr>)"

definition can_send_batch :: "HighPerformanceCANBus \<Rightarrow> CANFrame list \<Rightarrow> HighPerformanceCANBus" where
  "can_send_batch bus frames =
     (let bus1 = bus\<lparr>messages_sent := messages_sent bus + int (length frames)\<rparr>
      in fold (\<lambda>frame b. b\<lparr>HighPerformanceCANBus.q := put (HighPerformanceCANBus.q b) frame\<rparr>)
           frames bus1)"

definition eth_send :: "HighPerformanceEthernetBus \<Rightarrow> EthernetPacket \<Rightarrow> HighPerformanceEthernetBus" where
  "eth_send bus pkt =
     (let bus1 = bus\<lparr>packets_sent := packets_sent bus + 1\<rparr>
      in bus1\<lparr>HighPerformanceEthernetBus.q := put (HighPerformanceEthernetBus.q bus1) pkt\<rparr>)"

definition eth_send_batch ::
  "HighPerformanceEthernetBus \<Rightarrow> EthernetPacket list \<Rightarrow> HighPerformanceEthernetBus" where
  "eth_send_batch bus packets =
     (let bus1 = bus\<lparr>packets_sent := packets_sent bus + int (length packets)\<rparr>
      in fold (\<lambda>pkt b. b\<lparr>HighPerformanceEthernetBus.q := put (HighPerformanceEthernetBus.q b) pkt\<rparr>)
           packets bus1)"

text \<open>\<^verbatim>\<open>for m in msgs: bus.send(m)\<close>, the loop that a batch send is compared with.\<close>

definition can_send_each :: "HighPerformanceCANBus \<Rightarrow> CANFrame list \<Rightarrow> HighPerformanceCANBus" where
  "can_send_each bus frames = fold (\<lambda>frame b. can_send b frame) frames bus"

definition eth_send_each ::
  "HighPerformanceEthernetBus \<Rightarrow> EthernetPacket list \<Rightarrow> HighPerformanceEthernetBus" where
  "eth_send_each bus packets = fold (\<lambda>pkt b. eth_send b pkt) packets bus"

section \<open>security.py: the intrusion detection system\<close>

text \<open>
  \<^verbatim>\<open>hashlib.sha256(b).hexdigest()\<close> is the parameter \<open>sha\<close>. The fingerprint of a
  message is the digest of its payload bytes followed directly by the bytes of the
  identifier text.
\<close>

type_synonym sha_fn = "bytes \<Rightarrow> string"

definition hash_message :: "sha_fn \<Rightarrow> bytes \<Rightarrow> string \<Rightarrow> string" where
  "hash_message sha d identifier = sha (d @ encode identifier)"

text \<open>
  \<^verbatim>\<open>timestamps\<close> is a \<^verbatim>\<open>defaultdict(deque)\<close>: every key has a deque, empty until
  written. \<^verbatim>\<open>check_can\<close> indexes it with the integer id and \<^verbatim>\<open>check_eth\<close> with the
  source text, and an integer and a text are never the same dictionary key.
\<close>

datatype rate_key = CanKey int | EthKey string

record ids_stats =
  total_checked :: int
  total_detected_packets :: int
  replay_detected :: int
  dos_detected :: int
  injection_detected :: int
  spoofing_detected :: int
  detection_rate :: rat

record EnhancedIDS =
  window_ms :: rat
  rate_threshold :: int
  seen_hashes :: "string set"
  timestamps :: "rate_key \<Rightarrow> rat list"
  replay_detected :: int
  dos_detected :: int
  injection_detected :: int
  spoofing_detected :: int
  total_checked :: int
  total_detected_packets :: int

text \<open>
  The constructor; its defaults are \<^verbatim>\<open>window_ms=1000, rate_threshold=100\<close>. The window
  may be given as an integer or as a float.
\<close>

definition EnhancedIDS_init :: "rat \<Rightarrow> int \<Rightarrow> EnhancedIDS" where
  "EnhancedIDS_init w r =
     \<lparr>window_ms = w, rate_threshold = r, seen_hashes = {}, timestamps = (\<lambda>_. []),
      EnhancedIDS.replay_detected = 0, EnhancedIDS.dos_detected = 0,
      EnhancedIDS.injection_detected = 0, EnhancedIDS.spoofing_detected = 0,
      EnhancedIDS.total_checked = 0, EnhancedIDS.total_detected_packets = 0\<rparr>"

text \<open>
  \<^verbatim>\<open>while dq and now - dq[0] > self.window_ms: dq.popleft()\<close>, with the deque's
  left end at the head of the list. The subtraction is the float one.
\<close>

fun evict :: "rat \<Rightarrow> rat \<Rightarrow> rat list \<Rightarrow> rat list" where
  "evict w now [] = []"
| "evict w now (t # dq) = (if fl (now - t) > w then evict w now dq else t # dq)"

text \<open>\<^verbatim>\<open>needle in haystack\<close> on byte strings: some run of the haystack is the needle.\<close>

fun contains :: "'a list \<Rightarrow> 'a list \<Rightarrow> bool" where
  "contains needle [] = (needle = [])"
| "contains needle (y # ys) = (prefix needle (y # ys) \<or> contains needle ys)"

record can_alerts =
  replay :: bool
  dos_rate :: bool
  injection :: bool
  alerts :: bool

record eth_alerts =
  replay :: bool
  dos_rate :: bool
  spoofing :: bool
  alerts :: bool

text \<open>
  The bodies of \<^verbatim>\<open>check_can\<close> and \<^verbatim>\<open>check_eth\<close>, statement by statement, under the
  lock. \<open>alerted0 \<dots> alerted3\<close> are the successive values of \<^verbatim>\<open>packet_alerted\<close>.
\<close>

definition check_can :: "sha_fn \<Rightarrow> EnhancedIDS \<Rightarrow> CANFrame \<Rightarrow> can_alerts \<times> EnhancedIDS" where
  "check_can sha s frame =
     (let s1 = s\<lparr>EnhancedIDS.total_checked := EnhancedIDS.total_checked s + 1\<rparr>;
          alerted0 = False;
          msg_hash = hash_message sha (data frame) (str_int (can_id frame));
          replay = (msg_hash \<in> seen_hashes s1);
          s2 = (if replay
                then s1\<lparr>EnhancedIDS.replay_detected := EnhancedIDS.replay_detected s1 + 1\<rparr>
                else s1);
          alerted1 = (if replay then True else alerted0);
          s3 = s2\<lparr>seen_hashes := insert msg_hash (seen_hashes s2)\<rparr>;
          now = CANFrame.ts_ms frame;
          dq = evict (window_ms s3) now (timestamps s3 (CanKey (can_id frame)) @ [now]);
          s4 = s3\<lparr>timestamps := (timestamps s3)(CanKey (can_id frame) := dq)\<rparr>;
          dos_rate = (int (length dq) > rate_threshold s4);
          s5 = (if dos_rate
                then s4\<lparr>EnhancedIDS.dos_detected := EnhancedIDS.dos_detected s4 + 1\<rparr>
                else s4);
          alerted2 = (if dos_rate then True else alerted1);
          injection = (can_id frame > 0x700);
          s6 = (if injection
                then s5\<lparr>EnhancedIDS.injection_detected := EnhancedIDS.injection_detected s5 + 1\<rparr>
                else s5);
          alerted3 = (if injection then True else alerted2);
          s7 = (if alerted3
                then s6\<lparr>EnhancedIDS.total_detected_packets :=
                          EnhancedIDS.total_detected_packets s6 + 1\<rparr>
                else s6)
      in (\<lparr>can_alerts.replay = replay, can_alerts.dos_rate = dos_rate,
            injection = injection, can_alerts.alerts = alerted3\<rparr>, s7))"

text \<open>
  In \<^verbatim>\<open>check_eth\<close> the payload is a \<^verbatim>\<open>bytes\<close> value, so the \<^verbatim>\<open>isinstance\<close> test
  of the spoofing line holds; \<^verbatim>\<open>b"SPOOF"\<close> is the ASCII bytes of that word.
\<close>

definition check_eth :: "sha_fn \<Rightarrow> EnhancedIDS \<Rightarrow> EthernetPacket \<Rightarrow> eth_alerts \<times> EnhancedIDS" where
  "check_eth sha s pkt =
     (let s1 = s\<lparr>EnhancedIDS.total_checked := EnhancedIDS.total_checked s + 1\<rparr>;
          alerted0 = False;
          msg_hash = hash_message sha (payload pkt) (EthernetPacket.src pkt);
          replay = (msg_hash \<in> seen_hashes s1);
          s2 = (if replay
                then s1\<lparr>EnhancedIDS.replay_detected := EnhancedIDS.replay_detected s1 + 1\<rparr>
                else s1);
          alerted1 = (if replay then True else alerted0);
          s3 = s2\<lparr>seen_hashes := insert msg_hash (seen_hashes s2)\<rparr>;
          now = EthernetPacket.ts_ms pkt;
          dq = evict (window_ms s3) now (timestamps s3 (EthKey (EthernetPacket.src pkt)) @ [now]);
          s4 = s3\<lparr>timestamps := (timestamps s3)(EthKey (EthernetPacket.src pkt) := dq)\<rparr>;
          dos_rate = (int (length dq) > rate_threshold s4);
          s5 = (if dos_rate
                then s4\<lparr>EnhancedIDS.dos_detected := EnhancedIDS.dos_detected s4 + 1\<rparr>
                else s4);
          alerted2 = (if dos_rate then True else alerted1);
          spoofing = (EthernetPacket.src pkt = ''attacker''
                      \<or> contains (encode ''SPOOF'') (payload pkt));
          s6 = (if spoofing
                then s5\<lparr>EnhancedIDS.spoofing_detected := EnhancedIDS.spoofing_detected s5 + 1\<rparr>
                else s5);
          alerted3 = (if spoofing then True else alerted2);
          s7 = (if alerted3
                then s6\<lparr>EnhancedIDS.total_detected_packets :=
                          EnhancedIDS.total_detected_packets s6 + 1\<rparr>
                else s6)
      in (\<lparr>eth_alerts.replay = replay, eth_alerts.dos_rate = dos_rate,
            spoofing = spoofing, eth_alerts.alerts = alerted3\<rparr>, s7))"

text \<open>
  \<^verbatim>\<open>get_stats\<close>. Python's \<^verbatim>\<open>/\<close> on two integers is true division; the model keeps
  the exact quotient, of which the Python value is the nearest float. The divisor is at
  least 1, so the division cannot raise.
\<close>

definition get_stats :: "EnhancedIDS \<Rightarrow> ids_stats" where
  "get_stats s =
     (let rate = of_int (EnhancedIDS.total_detected_packets s)
                   / of_int (max (EnhancedIDS.total_checked s) 1)
      in \<lparr>ids_stats.total_checked = EnhancedIDS.total_checked s,
          ids_stats.total_detected_packets = EnhancedIDS.total_detected_packets s,
          ids_stats.replay_detected = EnhancedIDS.replay_detected s,
          ids_stats.dos_detected = EnhancedIDS.dos_detected s,
          ids_stats.injection_detected = EnhancedIDS.injection_detected s,
          ids_stats.spoofing_detected = EnhancedIDS.spoofing_detected s,
          detection_rate = rate\<rparr>)"

text \<open>
  A caller's trace: a list of messages, each handed to the check of its protocol, the
  verdicts collected in order.
\<close>

datatype message = Can CANFrame | Eth EthernetPacket

datatype verdict = CanAlerts can_alerts | EthAlerts eth_alerts

fun check :: "sha_fn \<Rightarrow> EnhancedIDS \<Rightarrow> message \<Rightarrow> verdict \<times> EnhancedIDS" where
  "check sha s (Can frame) = (let (v, s') = check_can sha s frame in (CanAlerts v, s'))"
| "check sha s (Eth pkt) = (let (v, s') = check_eth sha s pkt in (EthAlerts v, s'))"

fun check_all :: "sha_fn \<Rightarrow> EnhancedIDS \<Rightarrow> message list \<Rightarrow> verdict list \<times> EnhancedIDS" where
  "check_all sha s [] = ([], s)"
| "check_all sha s (m # ms) =
     (let (v, s1) = check sha s m; (vs, s2) = check_all sha s1 ms in (v # vs, s2))"

fun routing_key :: "message \<Rightarrow> rate_key" where
  "routing_key (Can frame) = CanKey (can_id frame)"
| "routing_key (Eth pkt) = EthKey (EthernetPacket.src pkt)"

fun timestamp :: "message \<Rightarrow> rat" where
  "timestamp (Can frame) = CANFrame.ts_ms frame"
| "timestamp (Eth pkt) = EthernetPacket.ts_ms pkt"

fun body :: "message \<Rightarrow> bytes" where
  "body (Can frame) = data frame"
| "body (Eth pkt) = payload pkt"

fun fingerprint :: "sha_fn \<Rightarrow> message \<Rightarrow> string" where
  "fingerprint sha (Can frame) = hash_message sha (data frame) (str_int (can_id frame))"
| "fingerprint sha (Eth pkt) = hash_message sha (payload pkt) (EthernetPacket.src pkt)"

fun is_replay :: "verdict \<Rightarrow> bool" where
  "is_replay (CanAlerts v) = can_alerts.replay v"
| "is_replay (EthAlerts v) = eth_alerts.replay v"

fun rate_exceeded :: "verdict \<Rightarrow> bool" where
  "rate_exceeded (CanAlerts v) = can_alerts.dos_rate v"
| "rate_exceeded (EthAlerts v) = eth_alerts.dos_rate v"

fun injection_or_spoofing :: "verdict \<Rightarrow> bool" where
  "injection_or_spoofing (CanAlerts v) = injection v"
| "injection_or_spoofing (EthAlerts v) = spoofing v"

fun blocked :: "verdict \<Rightarrow> bool" where
  "blocked (CanAlerts v) = can_alerts.alerts v"
| "blocked (EthAlerts v) = eth_alerts.alerts v"

section \<open>gateway.py: the protocol translator\<close>

text \<open>
  A dictionary passed to the constructor is an association list read with
  \<^const>\<open>map_of\<close>; the empty one is the falsy one. \<^verbatim>\<open>m.get(k, d)\<close>:
\<close>

definition dict_get :: "('k \<times> 'v) list \<Rightarrow> 'k \<Rightarrow> 'v \<Rightarrow> 'v" where
  "dict_get m k d = (case map_of m k of None \<Rightarrow> d | Some v \<Rightarrow> v)"

record ProtocolTranslator =
  can_to_eth_map :: "(int \<times> string) list"
  eth_to_can_map :: "(string \<times> int) list"
  translation_count :: int
  latencies :: "rat list"

text \<open>\<^verbatim>\<open>a or b\<close> where \<open>a\<close> may be \<^verbatim>\<open>None\<close>: \<open>a\<close> when it is given and truthy.\<close>

definition dict_or :: "('k \<times> 'v) list option \<Rightarrow> ('k \<times> 'v) list \<Rightarrow> ('k \<times> 'v) list" where
  "dict_or a b = (case a of None \<Rightarrow> b | Some m \<Rightarrow> if m = [] then b else m)"

definition ProtocolTranslator_init ::
  "(int \<times> string) list option \<Rightarrow> (string \<times> int) list option \<Rightarrow> ProtocolTranslator" where
  "ProtocolTranslator_init c2e e2c =
     \<lparr>can_to_eth_map = dict_or c2e
        [(0x100, ''192.168.0.10''), (0x101, ''192.168.0.11''),
         (0x200, ''192.168.0.20''), (0x300, ''192.168.0.30'')],
      eth_to_can_map = dict_or e2c
        [(''192.168.0.10'', 0x100), (''192.168.0.11'', 0x101),
         (''192.168.0.20'', 0x200), (''192.168.0.30'', 0x300)],
      translation_count = 0, latencies = []\<rparr>"

text \<open>
  Each translation reads the clock three times (\<^verbatim>\<open>now_ms()\<close> at the start, for the
  message's timestamp, and under the lock): the readings are the argument
  \<open>(t_start, t_msg, t_end)\<close>, floats. The \<^verbatim>\<open>time.sleep\<close> chosen by \<^verbatim>\<open>_scenario\<close> only lets
  time pass between the first two. The process-wide message counter is threaded through,
  since \<^verbatim>\<open>gen_id\<close> advances it; \<^verbatim>\<open>x or gen_id(p)\<close> calls \<^verbatim>\<open>gen_id\<close> only when \<open>x\<close>
  is the empty text.
\<close>

definition can_to_eth ::
  "ProtocolTranslator \<Rightarrow> Counter \<Rightarrow> rat \<times> rat \<times> rat \<Rightarrow> CANFrame \<Rightarrow> string option
     \<Rightarrow> EthernetPacket \<times> ProtocolTranslator \<times> Counter" where
  "can_to_eth tr c clock frame dst_arg =
     (let (start_time, t_msg, t_end) = clock;
          looked_up = dict_get (can_to_eth_map tr) (can_id frame) ''192.168.0.99'';
          ip = (case dst_arg of None \<Rightarrow> looked_up
                | Some d \<Rightarrow> if d = [] then looked_up else d);
          (mid, c') = (if CANFrame.msg_id frame \<noteq> [] then (CANFrame.msg_id frame, c)
                       else gen_id ''eth'' c);
          pkt = \<lparr>EthernetPacket.ts_ms = t_msg, EthernetPacket.src = ''gateway'', dst = ip,
                 payload = data frame, EthernetPacket.msg_id = mid, priority = 0\<rparr>;
          tr1 = tr\<lparr>translation_count := translation_count tr + 1\<rparr>;
          latency = fl (t_end - start_time);
          tr2 = tr1\<lparr>latencies := latencies tr1 @ [latency]\<rparr>
      in (pkt, tr2, c'))"

definition eth_to_can ::
  "ProtocolTranslator \<Rightarrow> Counter \<Rightarrow> rat \<times> rat \<times> rat \<Rightarrow> EthernetPacket
     \<Rightarrow> CANFrame \<times> ProtocolTranslator \<times> Counter" where
  "eth_to_can tr c clock pkt =
     (let (start_time, t_msg, t_end) = clock;
          cid = dict_get (eth_to_can_map tr) (EthernetPacket.src pkt) 0x200;
          (mid, c') = (if EthernetPacket.msg_id pkt \<noteq> [] then (EthernetPacket.msg_id pkt, c)
                       else gen_id ''can'' c);
          frame = \<lparr>CANFrame.ts_ms = t_msg, can_id = cid,
                   dlc = min (int (length (payload pkt))) 8,
                   data = slice_to (payload pkt) 8,
                   CANFrame.src = ''gateway'', CANFrame.msg_id = mid\<rparr>;
          tr1 = tr\<lparr>translation_count := translation_count tr + 1\<rparr>;
          latency = fl (t_end - start_time);
          tr2 = tr1\<lparr>latencies := latencies tr1 @ [latency]\<rparr>
      in (frame, tr2, c'))"

section \<open>Facts about slices\<close>

lemma slice_to_nonneg: "0 \<le> k \<Longrightarrow> slice_to xs k = take (nat k) xs"
  by (simp add: slice_to_def slice_index_def Let_def min_def)

lemma slice_to_neg:
  "k < 0 \<Longrightarrow> slice_to xs k = take (length xs - nat (- k)) xs"
  by (auto simp add: slice_to_def slice_index_def Let_def min_def max_def intro: arg_cong2 [where f = take])

lemma slice_from_neg:
  "k < 0 \<Longrightarrow> slice_from xs k = drop (length xs - nat (- k)) xs"
  by (auto simp add: slice_from_def slice_index_def Let_def min_def max_def intro: arg_cong2 [where f = drop])

lemma slice_to_from_append:
  "length t = 8 \<Longrightarrow> slice_to (m @ t) (- 8) = m \<and> slice_from (m @ t) (- 8) = t"
  by (simp add: slice_to_neg slice_from_neg)

lemma length_sign: "8 \<le> length (hm key d) \<Longrightarrow> length (sign hm key d) = 8"
  by (simp add: sign_def slice_to_nonneg)

section \<open>Rounding to a float\<close>

lemma round_half_even_of_int: "round_half_even (of_int n) = n"
  by (simp add: round_half_even_def)

lemma round_half_even_mono:
  assumes "a \<le> b"
  shows "round_half_even a \<le> round_half_even b"
proof -
  have f: "\<lfloor>a\<rfloor> \<le> \<lfloor>b\<rfloor>" using assms by (rule floor_mono)
  have la: "round_half_even a \<le> \<lfloor>a\<rfloor> + 1" and lb: "\<lfloor>b\<rfloor> \<le> round_half_even b"
    by (simp_all add: round_half_even_def Let_def)
  show ?thesis
  proof (cases "\<lfloor>a\<rfloor> < \<lfloor>b\<rfloor>")
    case True
    then show ?thesis using la lb by linarith
  next
    case False
    then have eq: "\<lfloor>a\<rfloor> = \<lfloor>b\<rfloor>" using f by simp
    then have "a - of_int \<lfloor>a\<rfloor> \<le> b - of_int \<lfloor>b\<rfloor>" using assms by simp
    then show ?thesis
      using eq by (auto simp add: round_half_even_def Let_def)
  qed
qed

lemma float_exponent_bounds:
  assumes "0 < x"
  shows "2 powi (float_exponent x) \<le> x \<and> x < 2 powi (float_exponent x + 1)"
proof (cases "1 \<le> x")
  case True
  let ?n = "\<lfloor>x\<rfloor>"
  have n: "0 < ?n" using True by simp
  have b1: "1 \<le> bitlen ?n" using n by (simp add: bitlen_ge_iff_power)
  have lo: "2 ^ nat (bitlen ?n - 1) \<le> ?n" and hi: "?n < 2 ^ nat (bitlen ?n)"
    using bitlen_bounds [OF n] by simp_all
  have "(2::rat) ^ nat (bitlen ?n - 1) = of_int (2 ^ nat (bitlen ?n - 1))" by simp
  also have "\<dots> \<le> of_int ?n" using lo by (simp only: of_int_le_iff)
  also have "\<dots> \<le> x" by simp
  finally have l: "(2::rat) ^ nat (bitlen ?n - 1) \<le> x" .
  have "?n + 1 \<le> 2 ^ nat (bitlen ?n)" using hi by simp
  then have "(of_int (?n + 1) :: rat) \<le> of_int (2 ^ nat (bitlen ?n))" by (simp only: of_int_le_iff)
  moreover have "x < of_int (?n + 1)" by linarith
  ultimately have h: "x < (2::rat) ^ nat (bitlen ?n)" by simp
  show ?thesis
    using True l h b1 by (simp add: float_exponent_def power_int_def)
next
  case False
  let ?y = "1 / x"
  let ?m = "\<lceil>?y\<rceil> - 1"
  have y: "1 < ?y" using False assms by simp
  have m: "0 < ?m" using y by linarith
  have b1: "1 \<le> bitlen ?m" using m by (simp add: bitlen_ge_iff_power)
  have lo: "2 ^ nat (bitlen ?m - 1) \<le> ?m" and hi: "?m < 2 ^ nat (bitlen ?m)"
    using bitlen_bounds [OF m] by simp_all
  have "?m + 1 \<le> 2 ^ nat (bitlen ?m)" using hi by simp
  then have le2: "(of_int (?m + 1) :: rat) \<le> of_int (2 ^ nat (bitlen ?m))"
    by (simp only: of_int_le_iff)
  have "?y \<le> of_int \<lceil>?y\<rceil>" by (rule le_of_int_ceiling)
  also have "\<dots> = of_int (?m + 1)" by simp
  also have "\<dots> \<le> of_int (2 ^ nat (bitlen ?m))" by (rule le2)
  also have "\<dots> = (2::rat) ^ nat (bitlen ?m)" by simp
  finally have yh: "?y \<le> (2::rat) ^ nat (bitlen ?m)" .
  have "(2::rat) ^ nat (bitlen ?m - 1) = of_int (2 ^ nat (bitlen ?m - 1))" by simp
  also have "\<dots> \<le> of_int ?m" using lo by (simp only: of_int_le_iff)
  also have "\<dots> < ?y" by linarith
  finally have yl: "(2::rat) ^ nat (bitlen ?m - 1) < ?y" .
  have l: "1 / 2 ^ nat (bitlen ?m) \<le> x"
    using yh assms by (simp add: field_simps)
  have h: "x < 1 / 2 ^ nat (bitlen ?m - 1)"
    using yl assms by (simp add: field_simps)
  have e: "float_exponent x = - bitlen ?m" using False by (simp add: float_exponent_def)
  have p1: "(2::rat) powi (- bitlen ?m) = 1 / 2 ^ nat (bitlen ?m)"
    using b1 by (simp add: power_int_def inverse_eq_divide power_one_over)
  have p2: "(2::rat) powi (- bitlen ?m + 1) = 1 / 2 ^ nat (bitlen ?m - 1)"
  proof -
    have "- bitlen ?m + 1 = - (bitlen ?m - 1)" by simp
    then have "(2::rat) powi (- bitlen ?m + 1) = inverse (2 powi (bitlen ?m - 1))"
      by (simp only: power_int_minus)
    also have "\<dots> = 1 / 2 ^ nat (bitlen ?m - 1)"
      using b1 by (simp add: power_int_def inverse_eq_divide)
    finally show ?thesis .
  qed
  show ?thesis unfolding e p1 p2 using l h by simp
qed

lemma two_powi_less_imp: "(2::rat) powi a < 2 powi b \<Longrightarrow> a < b"
proof (rule ccontr)
  assume lt: "(2::rat) powi a < 2 powi b" and "\<not> a < b"
  then have "b \<le> a" by simp
  then have "(2::rat) powi b \<le> 2 powi a" by (rule power_int_increasing) simp
  then show False using lt by simp
qed

lemma float_exponent_unique:
  assumes "0 < x" and "2 powi e \<le> x" and "x < 2 powi (e + 1)"
  shows "float_exponent x = e"
proof -
  let ?f = "float_exponent x"
  have b: "2 powi ?f \<le> x" "x < 2 powi (?f + 1)"
    using float_exponent_bounds [OF assms(1)] by simp_all
  have "(2::rat) powi e < 2 powi (?f + 1)" using assms(2) b(2) by simp
  then have 1: "e < ?f + 1" by (rule two_powi_less_imp)
  have "(2::rat) powi ?f < 2 powi (e + 1)" using assms(3) b(1) by simp
  then have 2: "?f < e + 1" by (rule two_powi_less_imp)
  show ?thesis using 1 2 by simp
qed

lemma float_exponent_mono:
  assumes "0 < x" and "x \<le> y"
  shows "float_exponent x \<le> float_exponent y"
proof -
  have "2 powi (float_exponent x) \<le> x" using float_exponent_bounds [OF assms(1)] by simp
  moreover have "y < 2 powi (float_exponent y + 1)"
    using float_exponent_bounds [of y] assms by simp
  ultimately have "(2::rat) powi (float_exponent x) < 2 powi (float_exponent y + 1)"
    using assms(2) by simp
  then have "float_exponent x < float_exponent y + 1" by (rule two_powi_less_imp)
  then show ?thesis by simp
qed

text \<open>The scaled magnitude lies in the top binade of the 53-bit integers.\<close>

lemma scaled_bounds:
  assumes "0 < x"
  shows "2 ^ 52 \<le> x / 2 powi (float_exponent x - 52)
         \<and> x / 2 powi (float_exponent x - 52) < 2 ^ 53"
proof -
  let ?e = "float_exponent x"
  have u: "(0::rat) < 2 powi (?e - 52)" by simp
  have lo: "2 powi ?e \<le> x" and hi: "x < 2 powi (?e + 1)"
    using float_exponent_bounds [OF assms] by simp_all
  have a: "(2::rat) powi ?e = 2 ^ 52 * 2 powi (?e - 52)"
    using power_int_add [of "2::rat" 52 "?e - 52"] by simp
  have b: "(2::rat) powi (?e + 1) = 2 ^ 53 * 2 powi (?e - 52)"
    using power_int_add [of "2::rat" 53 "?e - 52"] by (simp add: add.commute)
  have "2 ^ 52 * 2 powi (?e - 52) \<le> x" using lo a by simp
  then have 1: "2 ^ 52 \<le> x / 2 powi (?e - 52)" using u by (simp add: pos_le_divide_eq)
  have "x < 2 ^ 53 * 2 powi (?e - 52)" using hi b by simp
  then have 2: "x / 2 powi (?e - 52) < 2 ^ 53" using u by (simp add: pos_divide_less_eq)
  show ?thesis using 1 2 by simp
qed

lemma round_scaled_bounds:
  assumes "0 < x"
  shows "2 ^ 52 \<le> round_half_even (x / 2 powi (float_exponent x - 52))
         \<and> round_half_even (x / 2 powi (float_exponent x - 52)) \<le> 2 ^ 53"
proof -
  let ?q = "x / 2 powi (float_exponent x - 52)"
  have lo: "(of_int (2 ^ 52) :: rat) \<le> ?q" and hi: "?q \<le> of_int (2 ^ 53)"
    using scaled_bounds [OF assms] by simp_all
  have "round_half_even (of_int (2 ^ 52)) \<le> round_half_even ?q"
    using lo by (rule round_half_even_mono)
  moreover have "round_half_even ?q \<le> round_half_even (of_int (2 ^ 53))"
    using hi by (rule round_half_even_mono)
  ultimately show ?thesis by (simp only: round_half_even_of_int) 
qed

lemma fl_pos:
  assumes "0 < x"
  shows "fl x = of_int (round_half_even (x / 2 powi (float_exponent x - 52)))
                 * 2 powi (float_exponent x - 52)"
  using assms by (simp add: fl_def Let_def)

lemma fl_neg: "fl (- x) = - fl x"
  by (simp add: fl_def Let_def sgn_minus)

lemma fl_zero: "fl 0 = 0"
  by (simp add: fl_def)

lemma fl_pos_pos:
  assumes "0 < x"
  shows "0 < fl x"
proof -
  have "0 < round_half_even (x / 2 powi (float_exponent x - 52))"
    using round_scaled_bounds [OF assms] by (smt (verit) zero_less_power)
  then show ?thesis unfolding fl_pos [OF assms] by simp
qed

lemma fl_mono_pos:
  assumes "0 < x" and "x \<le> y"
  shows "fl x \<le> fl y"
proof -
  have y: "0 < y" using assms by simp
  let ?ex = "float_exponent x - 52" and ?ey = "float_exponent y - 52"
  let ?nx = "round_half_even (x / 2 powi ?ex)" and ?ny = "round_half_even (y / 2 powi ?ey)"
  have le: "?ex \<le> ?ey" using float_exponent_mono [OF assms] by simp
  show ?thesis
  proof (cases "?ex = ?ey")
    case True
    have "x / 2 powi ?ex \<le> y / 2 powi ?ey"
      unfolding True using assms(2) by (simp add: divide_right_mono)
    then have "?nx \<le> ?ny" by (rule round_half_even_mono)
    then have "(of_int ?nx :: rat) * 2 powi ?ey \<le> of_int ?ny * 2 powi ?ey"
      by (simp add: mult_right_mono)
    then show ?thesis unfolding fl_pos [OF assms(1)] fl_pos [OF y] True .
  next
    case False
    then have lt: "?ex + 1 \<le> ?ey" using le by simp
    have "(of_int ?nx :: rat) \<le> of_int (2 ^ 53)"
      using round_scaled_bounds [OF assms(1)] by (simp only: of_int_le_iff)
    then have "of_int ?nx * 2 powi ?ex \<le> (2::rat) ^ 53 * 2 powi ?ex"
      by (simp add: mult_right_mono)
    also have "\<dots> = 2 ^ 52 * 2 powi (?ex + 1)"
      using power_int_add [of "2::rat" ?ex 1] by simp
    also have "\<dots> \<le> 2 ^ 52 * 2 powi ?ey"
      using lt by (simp add: power_int_increasing)
    also have "\<dots> \<le> of_int ?ny * 2 powi ?ey"
    proof -
      have "(of_int (2 ^ 52) :: rat) \<le> of_int ?ny"
        using round_scaled_bounds [OF y] by (simp only: of_int_le_iff)
      then show ?thesis by (simp add: mult_right_mono)
    qed
    finally show ?thesis unfolding fl_pos [OF assms(1)] fl_pos [OF y] .
  qed
qed

lemma fl_mono:
  assumes "x \<le> y"
  shows "fl x \<le> fl y"
proof -
  consider "0 < x" | "x = 0" "0 < y" | "x = 0" "y = 0" | "x < 0" "0 \<le> y" | "x < 0" "y < 0"
    using assms by linarith
  then show ?thesis
  proof cases
    case 1
    then show ?thesis using assms by (rule fl_mono_pos)
  next
    case 2
    then show ?thesis using fl_pos_pos [of y] by (simp add: fl_zero)
  next
    case 3
    then show ?thesis by simp
  next
    case 4
    have "0 < fl (- x)" using 4 by (simp add: fl_pos_pos)
    then have "fl x < 0" by (simp add: fl_neg)
    moreover have "0 \<le> fl y"
      using 4 fl_pos_pos [of y] by (cases "y = 0") (simp_all add: fl_zero)
    ultimately show ?thesis by simp
  next
    case 5
    have "fl (- y) \<le> fl (- x)" using 5 assms by (intro fl_mono_pos) simp_all
    then show ?thesis by (simp add: fl_neg)
  qed
qed

lemma fl_at:
  assumes "0 < x" and "2 powi e \<le> x" and "x < 2 powi (e + 1)"
  shows "fl x = of_int (round_half_even (x / 2 powi (e - 52))) * 2 powi (e - 52)"
  using fl_pos [OF assms(1)] float_exponent_unique [OF assms] by simp

lemma floor_numeral_quotient:
  "\<lfloor>numeral a / numeral b :: rat\<rfloor> = numeral a div numeral b"
  using floor_divide_of_int_eq [of "numeral a" "numeral b", where ?'a = rat] by simp

text \<open>Every integer below \<open>2 ^ 53\<close> in absolute value is a float.\<close>

lemma fl_of_int_pos:
  assumes "0 < n" and "n < 2 ^ 53"
  shows "fl (of_int n) = of_int n"
proof -
  let ?e = "bitlen n - 1"
  have b1: "1 \<le> bitlen n" using assms(1) by (simp add: bitlen_ge_iff_power)
  have b2: "bitlen n \<le> 53" using assms(2) by (simp add: bitlen_le_iff_power)
  have x: "(0::rat) < of_int n" using assms(1) by simp
  have e: "float_exponent (of_int n) = ?e"
    using assms(1) by (simp add: float_exponent_def)
  define k where "k = nat (52 - ?e)"
  have k: "?e - 52 = - int k" using b2 by (simp add: k_def)
  have u: "(2::rat) powi (?e - 52) = 1 / 2 ^ k"
    unfolding k by (simp add: power_int_minus inverse_eq_divide)
  have q: "(of_int n :: rat) / (1 / 2 ^ k) = of_int (n * 2 ^ k)"
    by simp
  have "fl (of_int n) = of_int (round_half_even (of_int n / 2 powi (?e - 52))) * 2 powi (?e - 52)"
    using fl_pos [OF x] e by simp
  also have "\<dots> = of_int (n * 2 ^ k) * (1 / 2 ^ k)"
    by (simp only: u q round_half_even_of_int)
  also have "\<dots> = of_int n" by simp
  finally show ?thesis .
qed

lemma fl_of_int:
  assumes "\<bar>n\<bar> < 2 ^ 53"
  shows "fl (of_int n) = of_int n"
proof -
  consider "0 < n" | "n = 0" | "n < 0" by linarith
  then show ?thesis
  proof cases
    case 1
    then show ?thesis using assms by (simp add: fl_of_int_pos)
  next
    case 2
    then show ?thesis by (simp add: fl_zero)
  next
    case 3
    then have "fl (of_int (- n)) = of_int (- n)" using assms by (intro fl_of_int_pos) simp_all
    then show ?thesis using fl_neg [of "of_int n"] by simp
  qed
qed

section \<open>The authentication tag\<close>

text \<open>
  Claim C1. For every payload \<open>m\<close>, stripping and verifying what \<open>attach_auth\<close> made of
  \<open>m\<close> returns \<open>m\<close> with the flag set. The one fact used about the library's HMAC is
  that its digests are 32 bytes long, so that the first 8 bytes of one are 8 bytes.
\<close>

theorem auth_roundtrip:
  assumes "\<And>k d. length (hm k d) = 32"
  shows "strip_and_verify hm key (attach_auth hm key m) = (m, True)"
proof -
  have len: "length (sign hm key m) = 8"
    using assms [of key m] by (simp add: length_sign)
  have "\<not> length (attach_auth hm key m) < 8"
    using len by (simp add: attach_auth_def)
  moreover have "slice_to (attach_auth hm key m) (- 8) = m"
    and "slice_from (attach_auth hm key m) (- 8) = sign hm key m"
    using slice_to_from_append [OF len, of m] by (simp_all add: attach_auth_def)
  ultimately show ?thesis
    by (simp add: strip_and_verify_def verify_def Let_def)
qed

theorem auth_roundtrip_witness:
  "(\<forall>k d. length ((\<lambda>k d. replicate 32 (of_nat (length d))) k d :: bytes) = 32)
   \<and> strip_and_verify (\<lambda>k d. replicate 32 (of_nat (length d))) (encode ''gateway-secret-2025'')
        (attach_auth (\<lambda>k d. replicate 32 (of_nat (length d))) (encode ''gateway-secret-2025'') [1, 2, 3])
      = ([1, 2, 3], True)"
  using auth_roundtrip [of "\<lambda>k d. replicate 32 (of_nat (length d))" "encode ''gateway-secret-2025''" "[1, 2, 3]"]
  by simp

text \<open>
  Claim C9. A payload shorter than the 8-byte tag comes back unchanged with the flag
  \<open>False\<close>. Every operation of the body (\<^verbatim>\<open>len\<close>, the two slices, the digest and the
  comparison) is defined on every byte string, so the function returns a pair on every
  input: the theorem gives that pair for the short inputs and for all the others, and the
  outcome of the verification is its second component.
\<close>

theorem strip_and_verify_total:
  "(length p < 8 \<longrightarrow> strip_and_verify hm key p = (p, False))
   \<and> (8 \<le> length p \<longrightarrow>
        strip_and_verify hm key p
          = (take (length p - 8) p,
             sign hm key (take (length p - 8) p) = drop (length p - 8) p))"
  by (simp add: strip_and_verify_def verify_def Let_def slice_to_neg slice_from_neg)

theorem strip_and_verify_total_witness:
  "length [1, 2, 3 :: byte] < 8
   \<and> strip_and_verify (\<lambda>k d. replicate 32 0) [] [1, 2, 3] = ([1, 2, 3], False)
   \<and> 8 \<le> length [9, 0, 0, 0, 0, 0, 0, 0, 1 :: byte]
   \<and> strip_and_verify (\<lambda>k d. replicate 32 0) [] [9, 0, 0, 0, 0, 0, 0, 0, 1] = ([9], False)"
  using strip_and_verify_total [of "[1, 2, 3]" "\<lambda>k d. replicate 32 0" "[]"]
    strip_and_verify_total [of "[9, 0, 0, 0, 0, 0, 0, 0, 1]" "\<lambda>k d. replicate 32 0" "[]"]
  by (simp add: sign_def slice_to_nonneg eval_nat_numeral)

section \<open>The buses\<close>

lemma fold_put_can:
  "fold (\<lambda>frame b. b\<lparr>HighPerformanceCANBus.q := put (HighPerformanceCANBus.q b) frame\<rparr>) L bus
     = bus\<lparr>HighPerformanceCANBus.q := HighPerformanceCANBus.q bus @ L\<rparr>"
  by (induction L arbitrary: bus) (simp_all add: put_def)

lemma fold_put_eth:
  "fold (\<lambda>pkt b. b\<lparr>HighPerformanceEthernetBus.q := put (HighPerformanceEthernetBus.q b) pkt\<rparr>) L bus
     = bus\<lparr>HighPerformanceEthernetBus.q := HighPerformanceEthernetBus.q bus @ L\<rparr>"
  by (induction L arbitrary: bus) (simp_all add: put_def)

lemma can_send_each_eq:
  "can_send_each bus L
     = bus\<lparr>HighPerformanceCANBus.q := HighPerformanceCANBus.q bus @ L,
           messages_sent := messages_sent bus + int (length L)\<rparr>"
  unfolding can_send_each_def
  by (induction L arbitrary: bus) (simp_all add: can_send_def put_def Let_def)

lemma eth_send_each_eq:
  "eth_send_each bus L
     = bus\<lparr>HighPerformanceEthernetBus.q := HighPerformanceEthernetBus.q bus @ L,
           packets_sent := packets_sent bus + int (length L)\<rparr>"
  unfolding eth_send_each_def
  by (induction L arbitrary: bus) (simp_all add: eth_send_def put_def Let_def)

lemma can_send_batch_eq:
  "can_send_batch bus L
     = bus\<lparr>HighPerformanceCANBus.q := HighPerformanceCANBus.q bus @ L,
           messages_sent := messages_sent bus + int (length L)\<rparr>"
  by (simp add: can_send_batch_def Let_def fold_put_can)

lemma eth_send_batch_eq:
  "eth_send_batch bus L
     = bus\<lparr>HighPerformanceEthernetBus.q := HighPerformanceEthernetBus.q bus @ L,
           packets_sent := packets_sent bus + int (length L)\<rparr>"
  by (simp add: eth_send_batch_def Let_def fold_put_eth)

text \<open>
  Claim C6. On either bus, from any state and for any list of messages, a batch send
  ends in the very state that sending the messages one by one, in order, ends in: the queue
  is the old queue followed by the list, the sent counter has grown by the length of the
  list (added once, before the messages are queued), the received counter is untouched.
\<close>

theorem send_batch_is_repeated_send:
  "can_send_batch cbus frames = can_send_each cbus frames
   \<and> HighPerformanceCANBus.q (can_send_batch cbus frames) = HighPerformanceCANBus.q cbus @ frames
   \<and> messages_sent (can_send_batch cbus frames) = messages_sent cbus + int (length frames)
   \<and> messages_received (can_send_batch cbus frames) = messages_received cbus
   \<and> eth_send_batch ebus packets = eth_send_each ebus packets
   \<and> HighPerformanceEthernetBus.q (eth_send_batch ebus packets)
       = HighPerformanceEthernetBus.q ebus @ packets
   \<and> packets_sent (eth_send_batch ebus packets) = packets_sent ebus + int (length packets)
   \<and> packets_received (eth_send_batch ebus packets) = packets_received ebus"
  by (simp add: can_send_batch_eq can_send_each_eq eth_send_batch_eq eth_send_each_eq)

section \<open>The intrusion detection system\<close>

text \<open>
  Claim C7. In any state of the detector and for any frame, \<open>check_can\<close> reports an
  injection exactly when the frame's id is above \<open>0x700\<close>: it does for \<open>0x701\<close> and does
  not for \<open>0x100\<close>.
\<close>

theorem injection_iff_high_id:
  "injection (fst (check_can sha s frame)) = (can_id frame > 0x700)
   \<and> injection (fst (check_can sha s (frame\<lparr>can_id := 0x701\<rparr>)))
   \<and> \<not> injection (fst (check_can sha s (frame\<lparr>can_id := 0x100\<rparr>)))"
  by (simp add: check_can_def Let_def)

section \<open>Decimal rendering at the numbers used below\<close>

lemma str_int_23: "str_int 23 = ''23''"
  by (simp add: str_int_def str_nat.simps [of 23] str_nat.simps [of 2] digit_char_def)

lemma str_int_3: "str_int 3 = ''3''"
  by (simp add: str_int_def str_nat.simps [of 3] digit_char_def)

lemma str_int_1: "str_int 1 = ''1''"
  by (simp add: str_int_def str_nat.simps [of "Suc 0"] digit_char_def)

section \<open>Replay detection\<close>

text \<open>
  Claim C2. The fingerprint is the digest of the payload bytes followed, with nothing in
  between, by the text of the routing key. Two different (payload, key) pairs whose
  concatenations agree therefore share a fingerprint, whatever the digest function is: the
  payload \<^verbatim>\<open>b"1"\<close> under id 23 and the payload \<^verbatim>\<open>b"12"\<close> under id 3 both hash the
  bytes \<^verbatim>\<open>b"123"\<close>. On a new detector the first frame is not a replay, and the second,
  whose pair was never checked before, is reported as one.
\<close>

theorem replay_flagged_on_fresh_pair:
  "(data \<lparr>CANFrame.ts_ms = 0, can_id = 23, dlc = 1, data = [0x31],
           CANFrame.src = ''node'', CANFrame.msg_id = ''a''\<rparr>, 23 :: int)
     \<noteq> ([0x31, 0x32], 3)
   \<and> \<not> can_alerts.replay (fst (check_can sha (EnhancedIDS_init 1000 100)
          \<lparr>CANFrame.ts_ms = 0, can_id = 23, dlc = 1, data = [0x31],
            CANFrame.src = ''node'', CANFrame.msg_id = ''a''\<rparr>))
   \<and> can_alerts.replay (fst (check_can sha
          (snd (check_can sha (EnhancedIDS_init 1000 100)
             \<lparr>CANFrame.ts_ms = 0, can_id = 23, dlc = 1, data = [0x31],
               CANFrame.src = ''node'', CANFrame.msg_id = ''a''\<rparr>))
          \<lparr>CANFrame.ts_ms = 1, can_id = 3, dlc = 2, data = [0x31, 0x32],
            CANFrame.src = ''node'', CANFrame.msg_id = ''b''\<rparr>))"
  by (simp add: check_can_def EnhancedIDS_init_def Let_def hash_message_def encode_def
        str_int_23 str_int_3)

section \<open>The secret\<close>

lemma encode_strict_text: "encode_strict (text_of t) = Inr (encode t)"
  by (induction t) (simp_all add: text_of_def encode_def)

lemma encode_strict_surrogate:
  "Surrogate n \<in> set v \<Longrightarrow> encode_strict v = Inl UnicodeEncodeError"
proof (induction v rule: encode_strict.induct)
  case 1
  then show ?case by simp
next
  case (2 n cs)
  show ?case by simp
next
  case (3 c cs)
  then show ?case by simp
qed

text \<open>
  Claim C5, as stated, fails: with \<^verbatim>\<open>HMAC_SECRET\<close> unset, loading the module does not
  fail but yields the built-in default key; the empty value is accepted as a key; and the
  key differs with the environment the process was started in.
\<close>

theorem secret_from_environment_counterexample:
  "SECRET Map.empty = Inr (encode ''gateway-secret-2025'')
   \<and> SECRET [''HMAC_SECRET'' \<mapsto> text_of []] = Inr []
   \<and> SECRET [''HMAC_SECRET'' \<mapsto> text_of ''k''] \<noteq> SECRET Map.empty"
  by (simp add: SECRET_def environ_get_def encode_strict_text) (simp add: encode_def)

text \<open>
  Claim C5, amended. The secret is not injected: it is read from the process environment
  when the module is loaded. When \<^verbatim>\<open>HMAC_SECRET\<close> is not set, loading succeeds with the
  bytes of the default \<^verbatim>\<open>gateway-secret-2025\<close>. When it is set to a text that encodes as
  UTF-8, the empty one included, loading succeeds with the bytes of that text. When it is
  set to a value that does not encode (one holding a lone surrogate, which is how a byte
  that is not valid UTF-8 arrives), loading fails at once with \<^verbatim>\<open>UnicodeEncodeError\<close>.
\<close>

theorem secret_from_environment:
  "(env ''HMAC_SECRET'' = None \<longrightarrow> SECRET env = Inr (encode ''gateway-secret-2025''))
   \<and> (env ''HMAC_SECRET'' = Some (text_of t) \<longrightarrow> SECRET env = Inr (encode t))
   \<and> (env ''HMAC_SECRET'' = Some v \<and> Surrogate n \<in> set v
        \<longrightarrow> SECRET env = Inl UnicodeEncodeError)"
  by (auto simp add: SECRET_def environ_get_def encode_strict_text encode_strict_surrogate)

theorem secret_from_environment_witness:
  "SECRET Map.empty = Inr (encode ''gateway-secret-2025'')
   \<and> SECRET [''HMAC_SECRET'' \<mapsto> text_of ''k''] = Inr (encode ''k'')
   \<and> SECRET [''HMAC_SECRET'' \<mapsto> [Surrogate 0xDCFF]] = Inl UnicodeEncodeError"
  using secret_from_environment [of Map.empty "''k''" "[]" 0]
    secret_from_environment [of "[''HMAC_SECRET'' \<mapsto> text_of ''k'']" "''k''" "[]" 0]
    secret_from_environment [of "[''HMAC_SECRET'' \<mapsto> [Surrogate 0xDCFF]]" "''k''"
      "[Surrogate 0xDCFF]" "0xDCFF"]
  by simp

section \<open>The protocol translator\<close>

text \<open>
  Claim C4. Whatever the packet, \<open>eth_to_can\<close> returns a frame: its length code is the
  smaller of the payload length and 8, its data are the first 8 bytes of the payload, its id
  is the entry of the translator's address-to-id table for the packet's source, and
  \<open>0x200\<close> when there is none. So the data of the frame are at most 8 bytes, as many as the
  length code says.
\<close>

theorem eth_to_can_frame:
  "dlc (fst (eth_to_can tr c (t0, t1, t2) pkt)) = min (int (length (payload pkt))) 8
   \<and> data (fst (eth_to_can tr c (t0, t1, t2) pkt)) = take 8 (payload pkt)
   \<and> can_id (fst (eth_to_can tr c (t0, t1, t2) pkt))
       = (case map_of (eth_to_can_map tr) (EthernetPacket.src pkt) of
            Some i \<Rightarrow> i | None \<Rightarrow> 0x200)
   \<and> length (data (fst (eth_to_can tr c (t0, t1, t2) pkt))) \<le> 8
   \<and> int (length (data (fst (eth_to_can tr c (t0, t1, t2) pkt))))
       = dlc (fst (eth_to_can tr c (t0, t1, t2) pkt))"
  by (simp add: eth_to_can_def Let_def split_def dict_get_def slice_to_nonneg min_def)

text \<open>
  Claim C8, as stated, fails where the \<open>dst\<close> argument is given but is the empty text:
  \<^verbatim>\<open>dst or ...\<close> then falls through to the table.
\<close>

theorem can_to_eth_empty_dst_counterexample:
  "dst (fst (can_to_eth (ProtocolTranslator_init None None) \<lparr>value = 0\<rparr> (0, 0, 0)
        \<lparr>CANFrame.ts_ms = 0, can_id = 0x100, dlc = 1, data = [7],
          CANFrame.src = ''node'', CANFrame.msg_id = ''m1''\<rparr> (Some '''')))
     = ''192.168.0.10''
   \<and> Some (dst (fst (can_to_eth (ProtocolTranslator_init None None) \<lparr>value = 0\<rparr> (0, 0, 0)
        \<lparr>CANFrame.ts_ms = 0, can_id = 0x100, dlc = 1, data = [7],
          CANFrame.src = ''node'', CANFrame.msg_id = ''m1''\<rparr> (Some '''')))) \<noteq> Some ''''"
  by (simp add: can_to_eth_def ProtocolTranslator_init_def dict_or_def dict_get_def Let_def)

text \<open>
  Claim C8, amended. The destination is the \<open>dst\<close> argument if it is given and not empty;
  otherwise the entry of the id-to-address table for the frame's id (with the default
  table, \<open>0x100\<close> gives \<^verbatim>\<open>192.168.0.10\<close>); otherwise \<^verbatim>\<open>192.168.0.99\<close>. The payload is
  the frame's data. The message id is the frame's when that is not empty, and otherwise
  \<^verbatim>\<open>eth\<close> followed by the next value of the message counter.
\<close>

theorem can_to_eth_packet:
  "(dst_arg = Some d \<and> d \<noteq> [] \<longrightarrow> dst (fst (can_to_eth tr c (t0, t1, t2) frame dst_arg)) = d)
   \<and> (dst_arg \<in> {None, Some []} \<and> map_of (can_to_eth_map tr) (can_id frame) = Some a
        \<longrightarrow> dst (fst (can_to_eth tr c (t0, t1, t2) frame dst_arg)) = a)
   \<and> (dst_arg \<in> {None, Some []} \<and> map_of (can_to_eth_map tr) (can_id frame) = None
        \<longrightarrow> dst (fst (can_to_eth tr c (t0, t1, t2) frame dst_arg)) = ''192.168.0.99'')
   \<and> dst (fst (can_to_eth (ProtocolTranslator_init None None) c (t0, t1, t2)
              (frame\<lparr>can_id := 0x100\<rparr>) None)) = ''192.168.0.10''
   \<and> payload (fst (can_to_eth tr c (t0, t1, t2) frame dst_arg)) = data frame
   \<and> (CANFrame.msg_id frame \<noteq> []
        \<longrightarrow> EthernetPacket.msg_id (fst (can_to_eth tr c (t0, t1, t2) frame dst_arg))
              = CANFrame.msg_id frame)
   \<and> (CANFrame.msg_id frame = []
        \<longrightarrow> EthernetPacket.msg_id (fst (can_to_eth tr c (t0, t1, t2) frame dst_arg))
              = ''eth'' @ str_int (value c + 1))"
  by (auto simp add: can_to_eth_def ProtocolTranslator_init_def dict_or_def dict_get_def Let_def
        gen_id_def get_next_def split: option.splits)

theorem can_to_eth_packet_witness:
  "dst (fst (can_to_eth (ProtocolTranslator_init None None) \<lparr>value = 0\<rparr> (0, 1, 2)
        \<lparr>CANFrame.ts_ms = 0, can_id = 0x101, dlc = 1, data = [7],
          CANFrame.src = ''node'', CANFrame.msg_id = ''m1''\<rparr> (Some ''10.0.0.1''))) = ''10.0.0.1''
   \<and> dst (fst (can_to_eth (ProtocolTranslator_init None None) \<lparr>value = 0\<rparr> (0, 1, 2)
        \<lparr>CANFrame.ts_ms = 0, can_id = 0x101, dlc = 1, data = [7],
          CANFrame.src = ''node'', CANFrame.msg_id = ''m1''\<rparr> None)) = ''192.168.0.11''
   \<and> dst (fst (can_to_eth (ProtocolTranslator_init None None) \<lparr>value = 0\<rparr> (0, 1, 2)
        \<lparr>CANFrame.ts_ms = 0, can_id = 0x7FF, dlc = 1, data = [7],
          CANFrame.src = ''node'', CANFrame.msg_id = ''''\<rparr> None)) = ''192.168.0.99''
   \<and> EthernetPacket.msg_id (fst (can_to_eth (ProtocolTranslator_init None None) \<lparr>value = 0\<rparr> (0, 1, 2)
        \<lparr>CANFrame.ts_ms = 0, can_id = 0x101, dlc = 1, data = [7],
          CANFrame.src = ''node'', CANFrame.msg_id = ''m1''\<rparr> None)) = ''m1''
   \<and> EthernetPacket.msg_id (fst (can_to_eth (ProtocolTranslator_init None None) \<lparr>value = 0\<rparr> (0, 1, 2)
        \<lparr>CANFrame.ts_ms = 0, can_id = 0x7FF, dlc = 1, data = [7],
          CANFrame.src = ''node'', CANFrame.msg_id = ''''\<rparr> None)) = ''eth1''"
  using
    can_to_eth_packet [of "Some ''10.0.0.1''" "''10.0.0.1''" "ProtocolTranslator_init None None"
      "\<lparr>value = 0\<rparr>" 0 1 2
      "\<lparr>CANFrame.ts_ms = 0, can_id = 0x101, dlc = 1, data = [7],
        CANFrame.src = ''node'', CANFrame.msg_id = ''m1''\<rparr>" "''192.168.0.11''"]
    can_to_eth_packet [of None "''x''" "ProtocolTranslator_init None None"
      "\<lparr>value = 0\<rparr>" 0 1 2
      "\<lparr>CANFrame.ts_ms = 0, can_id = 0x101, dlc = 1, data = [7],
        CANFrame.src = ''node'', CANFrame.msg_id = ''m1''\<rparr>" "''192.168.0.11''"]
    can_to_eth_packet [of None "''x''" "ProtocolTranslator_init None None"
      "\<lparr>value = 0\<rparr>" 0 1 2
      "\<lparr>CANFrame.ts_ms = 0, can_id = 0x7FF, dlc = 1, data = [7],
        CANFrame.src = ''node'', CANFrame.msg_id = ''''\<rparr>" "''y''"]
  by (simp add: ProtocolTranslator_init_def dict_or_def str_int_1)

section \<open>The counters of the detector\<close>

text \<open>The byte search of the spoofing test is the library's notion of a contiguous sublist.\<close>

lemma contains_sublist: "contains needle haystack = sublist needle haystack"
  by (induction haystack) (simp_all add: sublist_Cons_right)


lemma check_can_counters:
  "EnhancedIDS.total_checked (snd (check_can sha s frame)) = EnhancedIDS.total_checked s + 1"
  "EnhancedIDS.total_detected_packets (snd (check_can sha s frame))
     = EnhancedIDS.total_detected_packets s
       + (if can_alerts.alerts (fst (check_can sha s frame)) then 1 else 0)"
  "can_alerts.alerts (fst (check_can sha s frame))
     = (can_alerts.replay (fst (check_can sha s frame))
        \<or> can_alerts.dos_rate (fst (check_can sha s frame))
        \<or> injection (fst (check_can sha s frame)))"
  by (simp_all add: check_can_def Let_def)

lemma check_eth_counters:
  "EnhancedIDS.total_checked (snd (check_eth sha s pkt)) = EnhancedIDS.total_checked s + 1"
  "EnhancedIDS.total_detected_packets (snd (check_eth sha s pkt))
     = EnhancedIDS.total_detected_packets s
       + (if eth_alerts.alerts (fst (check_eth sha s pkt)) then 1 else 0)"
  "eth_alerts.alerts (fst (check_eth sha s pkt))
     = (eth_alerts.replay (fst (check_eth sha s pkt))
        \<or> eth_alerts.dos_rate (fst (check_eth sha s pkt))
        \<or> spoofing (fst (check_eth sha s pkt)))"
  by (simp_all add: check_eth_def Let_def)

lemma check_Can:
  "fst (check sha s (Can frame)) = CanAlerts (fst (check_can sha s frame))"
  "snd (check sha s (Can frame)) = snd (check_can sha s frame)"
  by (simp_all add: split_def Let_def)

lemma check_Eth:
  "fst (check sha s (Eth pkt)) = EthAlerts (fst (check_eth sha s pkt))"
  "snd (check sha s (Eth pkt)) = snd (check_eth sha s pkt)"
  by (simp_all add: split_def Let_def)

lemma check_total_checked:
  "EnhancedIDS.total_checked (snd (check sha s m)) = EnhancedIDS.total_checked s + 1"
proof (cases m)
  case (Can frame)
  show ?thesis unfolding Can check_Can by (simp add: check_can_counters(1))
next
  case (Eth pkt)
  show ?thesis unfolding Eth check_Eth by (simp add: check_eth_counters(1))
qed

lemma check_total_detected:
  "EnhancedIDS.total_detected_packets (snd (check sha s m))
     = EnhancedIDS.total_detected_packets s + (if blocked (fst (check sha s m)) then 1 else 0)"
proof (cases m)
  case (Can frame)
  show ?thesis unfolding Can check_Can by (simp add: check_can_counters(2))
next
  case (Eth pkt)
  show ?thesis unfolding Eth check_Eth by (simp add: check_eth_counters(2))
qed

lemma check_blocked:
  "blocked (fst (check sha s m))
     = (is_replay (fst (check sha s m)) \<or> rate_exceeded (fst (check sha s m))
        \<or> injection_or_spoofing (fst (check sha s m)))"
proof (cases m)
  case (Can frame)
  show ?thesis unfolding Can check_Can by (simp add: check_can_counters(3))
next
  case (Eth pkt)
  show ?thesis unfolding Eth check_Eth by (simp add: check_eth_counters(3))
qed

lemma check_all_Cons:
  "fst (check_all sha s (m # ms))
     = fst (check sha s m) # fst (check_all sha (snd (check sha s m)) ms)"
  "snd (check_all sha s (m # ms)) = snd (check_all sha (snd (check sha s m)) ms)"
  by (simp_all add: split_def Let_def)

lemma check_all_counters:
  "EnhancedIDS.total_checked (snd (check_all sha s ms))
     = EnhancedIDS.total_checked s + int (length ms)
   \<and> EnhancedIDS.total_detected_packets (snd (check_all sha s ms))
     = EnhancedIDS.total_detected_packets s
       + int (length (filter blocked (fst (check_all sha s ms))))
   \<and> length (fst (check_all sha s ms)) = length ms"
proof (induction ms arbitrary: s)
  case Nil
  show ?case by simp
next
  case (Cons m ms)
  show ?case
    unfolding check_all_Cons
    using Cons.IH [of "snd (check sha s m)"]
    by (simp add: check_total_checked check_total_detected)
qed

lemma detection_rate_bounds:
  assumes "0 \<le> EnhancedIDS.total_detected_packets s"
    and "EnhancedIDS.total_detected_packets s \<le> EnhancedIDS.total_checked s"
  shows "0 \<le> detection_rate (get_stats s) \<and> detection_rate (get_stats s) \<le> 1"
proof -
  let ?d = "EnhancedIDS.total_detected_packets s"
  let ?c = "max (EnhancedIDS.total_checked s) 1"
  have pos: "(0::rat) < of_int ?c" by simp
  have le: "(of_int ?d :: rat) \<le> of_int ?c" using assms(2) by (simp add: max_def)
  have nonneg: "(0::rat) \<le> of_int ?d" using assms(1) by simp
  have "detection_rate (get_stats s) = of_int ?d / of_int ?c"
    by (simp add: get_stats_def Let_def)
  moreover have "(0::rat) \<le> of_int ?d / of_int ?c"
    using nonneg pos by (simp add: zero_le_divide_iff)
  moreover have "(of_int ?d :: rat) / of_int ?c \<le> 1"
    using le pos by (simp add: divide_le_eq_1_pos)
  ultimately show ?thesis by simp
qed

text \<open>
  Claim C10. Start from a new detector (any window, any threshold) and check any list of
  CAN frames and Ethernet packets, in any order. Then \<open>total_checked\<close> is the number of
  calls, \<open>total_detected_packets\<close> is the number of verdicts with the alert flag set, hence at
  most \<open>total_checked\<close>, and the detection rate that \<open>get_stats\<close> reports lies between 0
  and 1. In any state, one call adds one to \<open>total_checked\<close>, and adds one to
  \<open>total_detected_packets\<close> when its verdict has the alert flag and nothing otherwise; the
  alert flag is set exactly when one of the three other flags of the verdict is.
\<close>

theorem counters_invariant:
  "EnhancedIDS.total_checked (snd (check_all sha (EnhancedIDS_init w r) ms)) = int (length ms)
   \<and> EnhancedIDS.total_detected_packets (snd (check_all sha (EnhancedIDS_init w r) ms))
       = int (length (filter blocked (fst (check_all sha (EnhancedIDS_init w r) ms))))
   \<and> EnhancedIDS.total_detected_packets (snd (check_all sha (EnhancedIDS_init w r) ms))
       \<le> EnhancedIDS.total_checked (snd (check_all sha (EnhancedIDS_init w r) ms))
   \<and> 0 \<le> detection_rate (get_stats (snd (check_all sha (EnhancedIDS_init w r) ms)))
   \<and> detection_rate (get_stats (snd (check_all sha (EnhancedIDS_init w r) ms))) \<le> 1
   \<and> EnhancedIDS.total_checked (snd (check sha s m)) = EnhancedIDS.total_checked s + 1
   \<and> EnhancedIDS.total_detected_packets (snd (check sha s m))
       = EnhancedIDS.total_detected_packets s + (if blocked (fst (check sha s m)) then 1 else 0)
   \<and> blocked (fst (check sha s m))
       = (is_replay (fst (check sha s m)) \<or> rate_exceeded (fst (check sha s m))
          \<or> injection_or_spoofing (fst (check sha s m)))"
proof -
  let ?init = "EnhancedIDS_init w r"
  let ?s = "snd (check_all sha ?init ms)"
  let ?vs = "fst (check_all sha ?init ms)"
  have c: "EnhancedIDS.total_checked ?s = int (length ms)"
    and d: "EnhancedIDS.total_detected_packets ?s = int (length (filter blocked ?vs))"
    and l: "length ?vs = length ms"
    using check_all_counters [of sha ?init ms] by (simp_all add: EnhancedIDS_init_def)
  have "length (filter blocked ?vs) \<le> length ?vs" by (rule length_filter_le)
  then have le: "EnhancedIDS.total_detected_packets ?s \<le> EnhancedIDS.total_checked ?s"
    using c d l by simp
  have nonneg: "0 \<le> EnhancedIDS.total_detected_packets ?s" using d by simp
  show ?thesis
    using c d le detection_rate_bounds [OF nonneg le] check_total_checked [of sha s m]
      check_total_detected [of sha s m] check_blocked [of sha s m]
    by simp
qed

section \<open>What replay detection guarantees\<close>

text \<open>
  The replay flag is the membership of the fingerprint in the seen set before the call, and
  every call inserts the fingerprint. So a new detector never reports a replay on its first
  message, and a message with the payload and the routing key of the one just checked is
  reported as a replay.
\<close>

lemma check_can_replay:
  "can_alerts.replay (fst (check_can sha s frame))
     = (hash_message sha (data frame) (str_int (can_id frame)) \<in> seen_hashes s)"
  "seen_hashes (snd (check_can sha s frame))
     = insert (hash_message sha (data frame) (str_int (can_id frame))) (seen_hashes s)"
  by (simp_all add: check_can_def Let_def)

lemma check_eth_replay:
  "eth_alerts.replay (fst (check_eth sha s pkt))
     = (hash_message sha (payload pkt) (EthernetPacket.src pkt) \<in> seen_hashes s)"
  "seen_hashes (snd (check_eth sha s pkt))
     = insert (hash_message sha (payload pkt) (EthernetPacket.src pkt)) (seen_hashes s)"
  by (simp_all add: check_eth_def Let_def)

lemma check_replay:
  "is_replay (fst (check sha s m)) = (fingerprint sha m \<in> seen_hashes s)
   \<and> seen_hashes (snd (check sha s m)) = insert (fingerprint sha m) (seen_hashes s)"
proof (cases m)
  case (Can frame)
  show ?thesis unfolding Can check_Can by (simp add: check_can_replay)
next
  case (Eth pkt)
  show ?thesis unfolding Eth check_Eth by (simp add: check_eth_replay)
qed

lemma same_pair_same_fingerprint:
  assumes "body m' = body m" and "routing_key m' = routing_key m"
  shows "fingerprint sha m' = fingerprint sha m"
  using assms by (cases m; cases m') simp_all

lemma replay_on_second_check:
  assumes "body m' = body m" and "routing_key m' = routing_key m"
  shows "is_replay (fst (check sha (snd (check sha s m)) m'))"
  using same_pair_same_fingerprint [OF assms, of sha] by (simp add: check_replay)

lemma no_replay_on_new_detector:
  "\<not> is_replay (fst (check sha (EnhancedIDS_init w r) m))"
  by (simp add: check_replay EnhancedIDS_init_def)

section \<open>The rate window\<close>

lemma evict_dropWhile: "evict w now dq = dropWhile (\<lambda>t. fl (now - t) > w) dq"
  by (induction dq) simp_all

lemma check_can_rate:
  "timestamps (snd (check_can sha s frame))
     = (timestamps s)(CanKey (can_id frame) :=
         evict (window_ms s) (CANFrame.ts_ms frame)
           (timestamps s (CanKey (can_id frame)) @ [CANFrame.ts_ms frame]))"
  "can_alerts.dos_rate (fst (check_can sha s frame))
     = (rate_threshold s
          < int (length (evict (window_ms s) (CANFrame.ts_ms frame)
                  (timestamps s (CanKey (can_id frame)) @ [CANFrame.ts_ms frame]))))"
  "window_ms (snd (check_can sha s frame)) = window_ms s"
  "rate_threshold (snd (check_can sha s frame)) = rate_threshold s"
  by (simp_all add: check_can_def Let_def)

lemma check_eth_rate:
  "timestamps (snd (check_eth sha s pkt))
     = (timestamps s)(EthKey (EthernetPacket.src pkt) :=
         evict (window_ms s) (EthernetPacket.ts_ms pkt)
           (timestamps s (EthKey (EthernetPacket.src pkt)) @ [EthernetPacket.ts_ms pkt]))"
  "eth_alerts.dos_rate (fst (check_eth sha s pkt))
     = (rate_threshold s
          < int (length (evict (window_ms s) (EthernetPacket.ts_ms pkt)
                  (timestamps s (EthKey (EthernetPacket.src pkt)) @ [EthernetPacket.ts_ms pkt]))))"
  "window_ms (snd (check_eth sha s pkt)) = window_ms s"
  "rate_threshold (snd (check_eth sha s pkt)) = rate_threshold s"
  by (simp_all add: check_eth_def Let_def)

lemma check_timestamps:
  "timestamps (snd (check sha s m))
     = (timestamps s)(routing_key m :=
         evict (window_ms s) (timestamp m) (timestamps s (routing_key m) @ [timestamp m]))"
proof (cases m)
  case (Can frame)
  show ?thesis unfolding Can check_Can by (simp add: check_can_rate(1))
next
  case (Eth pkt)
  show ?thesis unfolding Eth check_Eth by (simp add: check_eth_rate(1))
qed

lemma check_rate_exceeded:
  "rate_exceeded (fst (check sha s m))
     = (rate_threshold s < int (length (timestamps (snd (check sha s m)) (routing_key m))))"
proof (cases m)
  case (Can frame)
  show ?thesis unfolding Can check_Can by (simp add: check_can_rate(1,2))
next
  case (Eth pkt)
  show ?thesis unfolding Eth check_Eth by (simp add: check_eth_rate(1,2))
qed

lemma check_params:
  "window_ms (snd (check sha s m)) = window_ms s
   \<and> rate_threshold (snd (check sha s m)) = rate_threshold s"
proof (cases m)
  case (Can frame)
  show ?thesis unfolding Can check_Can by (simp add: check_can_rate(3,4))
next
  case (Eth pkt)
  show ?thesis unfolding Eth check_Eth by (simp add: check_eth_rate(3,4))
qed

lemma check_all_params:
  "window_ms (snd (check_all sha s ms)) = window_ms s
   \<and> rate_threshold (snd (check_all sha s ms)) = rate_threshold s"
proof (induction ms arbitrary: s)
  case Nil
  show ?case by simp
next
  case (Cons m ms)
  show ?case unfolding check_all_Cons
    using Cons.IH [of "snd (check sha s m)"] by (simp add: check_params)
qed

lemma check_all_snoc:
  "fst (check_all sha s (ms @ [m]))
     = fst (check_all sha s ms) @ [fst (check sha (snd (check_all sha s ms)) m)]
   \<and> snd (check_all sha s (ms @ [m])) = snd (check sha (snd (check_all sha s ms)) m)"
proof (induction ms arbitrary: s)
  case Nil
  show ?case by (simp add: split_def Let_def)
next
  case (Cons a ms)
  show ?case
    using Cons.IH [of "snd (check sha s a)"]
    by (simp only: append_Cons check_all_Cons)
qed

lemma check_all_timestamps:
  assumes "\<forall>m\<in>set ms. routing_key m = k"
  shows "timestamps (snd (check_all sha s ms)) k
     = foldl (\<lambda>dq t. evict (window_ms s) t (dq @ [t])) (timestamps s k) (map timestamp ms)"
  using assms
proof (induction ms arbitrary: s)
  case Nil
  show ?case by simp
next
  case (Cons m ms)
  have k: "routing_key m = k" and rest: "\<forall>m\<in>set ms. routing_key m = k"
    using Cons.prems by simp_all
  show ?case
    unfolding check_all_Cons
    using Cons.IH [OF rest, of "snd (check sha s m)"] k
    by (simp add: check_timestamps check_params)
qed

lemma last_verdict:
  assumes "ms \<noteq> []" and "\<forall>m\<in>set ms. routing_key m = k"
  shows "rate_exceeded (last (fst (check_all sha s ms)))
     = (rate_threshold s < int (length (timestamps (snd (check_all sha s ms)) k)))"
proof -
  obtain ms' m where ms: "ms = ms' @ [m]"
    using assms(1) by (metis append_butlast_last_id)
  have k: "routing_key m = k" using assms(2) ms by simp
  let ?s' = "snd (check_all sha s ms')"
  have "rate_threshold ?s' = rate_threshold s" by (simp add: check_all_params)
  then show ?thesis
    unfolding ms using k check_all_snoc [of sha s ms' m] check_rate_exceeded [of sha ?s' m]
    by simp
qed

lemma evict_keeps:
  assumes "xs \<noteq> []" and "fl (now - hd xs) \<le> w"
  shows "\<exists>pre'. evict w now (pre @ xs) = pre' @ xs"
proof (induction pre)
  case Nil
  obtain x xs' where "xs = x # xs'" using assms(1) by (cases xs) auto
  then show ?case using assms(2) by simp
next
  case (Cons a pre)
  show ?case
  proof (cases "fl (now - a) > w")
    case True
    then show ?thesis using Cons.IH by simp
  next
    case False
    then have "evict w now ((a # pre) @ xs) = (a # pre) @ xs" by simp
    then show ?thesis by blast
  qed
qed

lemma window_keeps_burst:
  assumes "\<forall>a\<in>set ts. \<forall>b\<in>set ts. fl (b - a) \<le> w"
  shows "\<exists>pre. foldl (\<lambda>dq t. evict w t (dq @ [t])) dq0 ts = pre @ ts"
  using assms
proof (induction ts rule: rev_induct)
  case Nil
  show ?case by simp
next
  case (snoc t ts)
  have "\<forall>a\<in>set ts. \<forall>b\<in>set ts. fl (b - a) \<le> w" using snoc.prems by simp
  then obtain pre where pre: "foldl (\<lambda>dq t. evict w t (dq @ [t])) dq0 ts = pre @ ts"
    using snoc.IH by blast
  have ne: "ts @ [t] \<noteq> []" by simp
  have "hd (ts @ [t]) \<in> set (ts @ [t])" using ne by (rule hd_in_set)
  moreover have "t \<in> set (ts @ [t])" by simp
  ultimately have "fl (t - hd (ts @ [t])) \<le> w" using snoc.prems by blast
  then obtain pre' where "evict w t (pre @ (ts @ [t])) = pre' @ (ts @ [t])"
    using evict_keeps [OF ne] by blast
  then show ?case using pre by simp
qed

lemma window_suffix:
  "suffix (foldl (\<lambda>dq t. evict w t (dq @ [t])) dq0 ts) (dq0 @ ts)"
proof (induction ts rule: rev_induct)
  case Nil
  show ?case by simp
next
  case (snoc t ts)
  let ?dq = "foldl (\<lambda>dq t. evict w t (dq @ [t])) dq0 ts"
  have "suffix (?dq @ [t]) ((dq0 @ ts) @ [t])" using snoc.IH by (auto simp add: suffix_def)
  moreover have "suffix (evict w t (?dq @ [t])) (?dq @ [t])"
    unfolding evict_dropWhile by (rule suffix_dropWhile)
  ultimately have "suffix (evict w t (?dq @ [t])) ((dq0 @ ts) @ [t])"
    by (rule suffix_order.trans [rotated])
  then show ?case by simp
qed

lemma evict_full_length:
  assumes "length (evict w now xs) = length xs" and "xs \<noteq> []"
  shows "fl (now - hd xs) \<le> w"
proof (rule ccontr)
  assume "\<not> fl (now - hd xs) \<le> w"
  moreover obtain x xs' where xs: "xs = x # xs'" using assms(2) by (cases xs) auto
  ultimately have "evict w now xs = evict w now xs'" by simp
  moreover have "length (evict w now xs') \<le> length xs'"
    unfolding evict_dropWhile by (rule length_dropWhile_le)
  ultimately show False using assms(1) xs by simp
qed

lemma window_drops_spread:
  assumes "ts \<noteq> []" and "fl (last ts - hd ts) > w"
  shows "length (foldl (\<lambda>dq t. evict w t (dq @ [t])) [] ts) < length ts"
proof -
  obtain ts' t where ts: "ts = ts' @ [t]"
    using assms(1) by (metis append_butlast_last_id)
  let ?dq = "foldl (\<lambda>dq t. evict w t (dq @ [t])) [] ts'"
  have suf: "suffix (?dq @ [t]) ts"
    using window_suffix [of w "[]" ts'] ts by simp
  then have le: "length (?dq @ [t]) \<le> length ts" by (rule suffix_length_le)
  have le': "length (evict w t (?dq @ [t])) \<le> length (?dq @ [t])"
    unfolding evict_dropWhile by (rule length_dropWhile_le)
  have final: "foldl (\<lambda>dq t. evict w t (dq @ [t])) [] ts = evict w t (?dq @ [t])"
    using ts by simp
  show ?thesis
  proof (rule ccontr)
    assume "\<not> ?thesis"
    then have full: "length (evict w t (?dq @ [t])) = length ts" using final le le' by simp
    then have len: "length (?dq @ [t]) = length ts" using le le' by simp
    have eq: "?dq @ [t] = ts"
      using suf len by (auto simp add: suffix_def)
    have "length (evict w t (?dq @ [t])) = length (?dq @ [t])" using full len by simp
    then have "fl (t - hd (?dq @ [t])) \<le> w" by (rule evict_full_length) simp
    then have "fl (last ts - hd ts) \<le> w" using eq ts by simp
    then show False using assms(2) by simp
  qed
qed

lemma below_threshold:
  assumes "\<forall>m\<in>set ms. routing_key m = k" and "timestamps s k = []"
    and "int (length ms) \<le> rate_threshold s"
  shows "\<forall>v\<in>set (fst (check_all sha s ms)). \<not> rate_exceeded v"
  using assms
proof (induction ms rule: rev_induct)
  case Nil
  show ?case by simp
next
  case (snoc m ms)
  have keys: "\<forall>m\<in>set ms. routing_key m = k" using snoc.prems(1) by simp
  have "int (length ms) \<le> rate_threshold s" using snoc.prems(3) by simp
  then have ih: "\<forall>v\<in>set (fst (check_all sha s ms)). \<not> rate_exceeded v"
    using snoc.IH keys snoc.prems(2) by blast
  have "suffix (timestamps (snd (check_all sha s (ms @ [m]))) k)
          (timestamps s k @ map timestamp (ms @ [m]))"
    unfolding check_all_timestamps [OF snoc.prems(1)] by (rule window_suffix)
  then have "length (timestamps (snd (check_all sha s (ms @ [m]))) k) \<le> length (ms @ [m])"
    using snoc.prems(2) suffix_length_le by fastforce
  then have "\<not> rate_exceeded (last (fst (check_all sha s (ms @ [m]))))"
    using last_verdict [of "ms @ [m]" k sha s] snoc.prems(1,3) by simp
  then show ?case
    using ih check_all_snoc [of sha s ms m] by simp
qed

lemma sorted_dropWhile_filter:
  "sorted xs \<Longrightarrow>
     dropWhile (\<lambda>t. fl (now - t) > w) xs = filter (\<lambda>t. fl (now - t) \<le> w) xs"
proof (induction xs)
  case Nil
  show ?case by simp
next
  case (Cons x xs)
  show ?case
  proof (cases "fl (now - x) > w")
    case True
    then show ?thesis using Cons by simp
  next
    case False
    have "\<forall>y\<in>set xs. fl (now - y) \<le> w"
    proof
      fix y assume "y \<in> set xs"
      then have "x \<le> y" using Cons.prems by simp
      then have "fl (now - y) \<le> fl (now - x)" by (intro fl_mono) simp
      then show "fl (now - y) \<le> w" using False by simp
    qed
    then have "filter (\<lambda>t. fl (now - t) \<le> w) xs = xs" by (simp add: filter_id_conv)
    then show ?thesis using False by simp
  qed
qed

text \<open>
  Claim C3, as stated, fails on float timestamps. Two messages of one key, with threshold
  1 and window 1000: the timestamps \<open>3 / 2 ^ 45\<close> and \<open>1000 + 1 / 2 ^ 43\<close> are floats, and
  the second lies more than 1000 after the first. But the difference the code computes is
  rounded to 1000.0, which is not above the window, so the first entry stays in the deque
  and the last check reports the rate as exceeded.
\<close>

theorem rate_window_rounding_counterexample:
  "fl (3 / 2 ^ 45) = 3 / 2 ^ 45
   \<and> fl (1000 + 1 / 2 ^ 43) = 1000 + 1 / 2 ^ 43
   \<and> (1000 :: rat) < (1000 + 1 / 2 ^ 43) - 3 / 2 ^ 45
   \<and> rate_exceeded (last (fst (check_all (\<lambda>_. []) (EnhancedIDS_init 1000 1)
        [Can \<lparr>CANFrame.ts_ms = 3 / 2 ^ 45, can_id = 0x100, dlc = 1, data = [1],
               CANFrame.src = ''node'', CANFrame.msg_id = ''a''\<rparr>,
         Can \<lparr>CANFrame.ts_ms = 1000 + 1 / 2 ^ 43, can_id = 0x100, dlc = 1, data = [2],
               CANFrame.src = ''node'', CANFrame.msg_id = ''b''\<rparr>])))"
proof -
  let ?ms = "[Can \<lparr>CANFrame.ts_ms = 3 / 2 ^ 45, can_id = 0x100, dlc = 1, data = [1],
               CANFrame.src = ''node'', CANFrame.msg_id = ''a''\<rparr>,
         Can \<lparr>CANFrame.ts_ms = 1000 + 1 / 2 ^ 43, can_id = 0x100, dlc = 1, data = [2],
               CANFrame.src = ''node'', CANFrame.msg_id = ''b''\<rparr>]"
  let ?init = "EnhancedIDS_init 1000 1"
  have f0: "fl (3 / 2 ^ 45) = 3 / 2 ^ 45"
    using fl_at [of "3 / 2 ^ 45" "- 44"] by (simp add: round_half_even_def)
  have f1: "fl (1000 + 1 / 2 ^ 43) = 1000 + 1 / 2 ^ 43"
    using fl_at [of "1000 + 1 / 2 ^ 43" 9] by (simp add: round_half_even_def)
  have d: "fl (1000 + 1 / 2 ^ 43 - 3 / 2 ^ 45) = 1000"
    using fl_at [of "1000 + 1 / 2 ^ 43 - 3 / 2 ^ 45" 9]
    by (simp add: round_half_even_def Let_def floor_numeral_quotient)
  have keys: "\<forall>m\<in>set ?ms. routing_key m = CanKey 0x100" by simp
  have "timestamps (snd (check_all (\<lambda>_. []) ?init ?ms)) (CanKey 0x100)
          = [3 / 2 ^ 45, 1000 + 1 / 2 ^ 43]"
    unfolding check_all_timestamps [OF keys]
    using d by (simp add: EnhancedIDS_init_def fl_zero)
  then have "rate_exceeded (last (fst (check_all (\<lambda>_. []) ?init ?ms)))"
    using last_verdict [of ?ms "CanKey 0x100" "\<lambda>_. []" ?init]
    by (simp add: EnhancedIDS_init_def del: check_all.simps)
  then show ?thesis using f0 f1 by simp
qed

text \<open>
  Claim C3, amended. All messages below carry one routing key, and timestamps are floats.
  (1) Check \<open>rate_threshold + 1\<close> of them, from any state, their timestamps pairwise no
  further apart than \<open>window_ms\<close>, itself a float: the last check reports the rate as
  exceeded. (2) Check \<open>rate_threshold + 1\<close> of them, the key's window holding nothing from
  before (as on a new detector), the difference of the last and the first timestamp, as
  float subtraction computes it, above \<open>window_ms\<close>: no check reports the rate as exceeded.
  (3) In any state, a check appends the timestamp to the key's deque and then drops entries
  from the front while their computed age is above \<open>window_ms\<close>; the verdict compares the
  length of what is left with the threshold; and when the timestamps of the key arrived in
  non-decreasing order, what is left is exactly the entries whose computed age is at most
  \<open>window_ms\<close>.
\<close>

theorem rate_window:
  "(ms \<noteq> [] \<and> (\<forall>m\<in>set ms. routing_key m = k)
      \<and> int (length ms) = rate_threshold s + 1
      \<and> fl (window_ms s) = window_ms s
      \<and> (\<forall>a\<in>set ms. \<forall>b\<in>set ms. timestamp b - timestamp a \<le> window_ms s)
     \<longrightarrow> rate_exceeded (last (fst (check_all sha s ms))))
   \<and> (ms' \<noteq> [] \<and> (\<forall>m\<in>set ms'. routing_key m = k')
      \<and> int (length ms') = rate_threshold s' + 1
      \<and> timestamps s' k' = []
      \<and> fl (timestamp (last ms') - timestamp (hd ms')) > window_ms s'
     \<longrightarrow> (\<forall>v\<in>set (fst (check_all sha s' ms')). \<not> rate_exceeded v))
   \<and> timestamps (snd (check sha u m)) (routing_key m)
       = dropWhile (\<lambda>x. fl (timestamp m - x) > window_ms u)
           (timestamps u (routing_key m) @ [timestamp m])
   \<and> rate_exceeded (fst (check sha u m))
       = (rate_threshold u < int (length (timestamps (snd (check sha u m)) (routing_key m))))
   \<and> (sorted (timestamps u (routing_key m) @ [timestamp m])
     \<longrightarrow> timestamps (snd (check sha u m)) (routing_key m)
           = filter (\<lambda>x. fl (timestamp m - x) \<le> window_ms u)
               (timestamps u (routing_key m) @ [timestamp m]))"
proof (intro conjI impI)
  assume a: "ms \<noteq> [] \<and> (\<forall>m\<in>set ms. routing_key m = k)
      \<and> int (length ms) = rate_threshold s + 1
      \<and> fl (window_ms s) = window_ms s
      \<and> (\<forall>a\<in>set ms. \<forall>b\<in>set ms. timestamp b - timestamp a \<le> window_ms s)"
  have "\<forall>a\<in>set (map timestamp ms). \<forall>b\<in>set (map timestamp ms). fl (b - a) \<le> window_ms s"
  proof (intro ballI)
    fix x y assume "x \<in> set (map timestamp ms)" and "y \<in> set (map timestamp ms)"
    then have "y - x \<le> window_ms s" using a by auto
    then have "fl (y - x) \<le> fl (window_ms s)" by (rule fl_mono)
    then show "fl (y - x) \<le> window_ms s" using a by simp
  qed
  then obtain pre where
    "foldl (\<lambda>dq t. evict (window_ms s) t (dq @ [t])) (timestamps s k) (map timestamp ms)
       = pre @ map timestamp ms"
    using window_keeps_burst by blast
  then have "timestamps (snd (check_all sha s ms)) k = pre @ map timestamp ms"
    using a check_all_timestamps [of ms k sha s] by simp
  then have "rate_threshold s < int (length (timestamps (snd (check_all sha s ms)) k))"
    using a by simp
  then show "rate_exceeded (last (fst (check_all sha s ms)))"
    using a last_verdict [of ms k sha s] by simp
next
  assume b: "ms' \<noteq> [] \<and> (\<forall>m\<in>set ms'. routing_key m = k')
      \<and> int (length ms') = rate_threshold s' + 1
      \<and> timestamps s' k' = []
      \<and> fl (timestamp (last ms') - timestamp (hd ms')) > window_ms s'"
  obtain front m' where ms': "ms' = front @ [m']"
    using b by (metis append_butlast_last_id)
  have keys: "\<forall>m\<in>set ms'. routing_key m = k'" using b by simp
  have "int (length front) \<le> rate_threshold s'" using b ms' by simp
  then have front: "\<forall>v\<in>set (fst (check_all sha s' front)). \<not> rate_exceeded v"
    using below_threshold [of front k' s' sha] keys ms' b by simp
  have ne: "map timestamp ms' \<noteq> []" using b by simp
  have "fl (last (map timestamp ms') - hd (map timestamp ms')) > window_ms s'"
    using b by (simp add: last_map hd_map)
  then have "length (foldl (\<lambda>dq t. evict (window_ms s') t (dq @ [t])) [] (map timestamp ms'))
               < length (map timestamp ms')"
    using window_drops_spread [OF ne] by blast
  then have "length (timestamps (snd (check_all sha s' ms')) k') < length ms'"
    using b check_all_timestamps [OF keys, of sha s'] by simp
  then have "\<not> rate_exceeded (last (fst (check_all sha s' ms')))"
    using b last_verdict [of ms' k' sha s'] by simp
  then show "\<forall>v\<in>set (fst (check_all sha s' ms')). \<not> rate_exceeded v"
    using front check_all_snoc [of sha s' front m'] ms' by simp
next
  show "timestamps (snd (check sha u m)) (routing_key m)
       = dropWhile (\<lambda>x. fl (timestamp m - x) > window_ms u)
           (timestamps u (routing_key m) @ [timestamp m])"
    by (simp add: check_timestamps evict_dropWhile)
next
  show "rate_exceeded (fst (check sha u m))
       = (rate_threshold u < int (length (timestamps (snd (check sha u m)) (routing_key m))))"
    by (rule check_rate_exceeded)
next
  assume srt: "sorted (timestamps u (routing_key m) @ [timestamp m])"
  have "timestamps (snd (check sha u m)) (routing_key m)
       = dropWhile (\<lambda>x. fl (timestamp m - x) > window_ms u)
           (timestamps u (routing_key m) @ [timestamp m])"
    by (simp add: check_timestamps evict_dropWhile)
  also have "\<dots> = filter (\<lambda>x. fl (timestamp m - x) \<le> window_ms u)
               (timestamps u (routing_key m) @ [timestamp m])"
    using srt by (rule sorted_dropWhile_filter)
  finally show "timestamps (snd (check sha u m)) (routing_key m)
           = filter (\<lambda>x. fl (timestamp m - x) \<le> window_ms u)
               (timestamps u (routing_key m) @ [timestamp m])" .
qed

theorem rate_window_witness:
  "rate_exceeded (last (fst (check_all (\<lambda>_. []) (EnhancedIDS_init 10 2)
      [Can \<lparr>CANFrame.ts_ms = 0, can_id = 0x100, dlc = 1, data = [1],
             CANFrame.src = ''node'', CANFrame.msg_id = ''a''\<rparr>,
       Can \<lparr>CANFrame.ts_ms = 5, can_id = 0x100, dlc = 1, data = [2],
             CANFrame.src = ''node'', CANFrame.msg_id = ''b''\<rparr>,
       Can \<lparr>CANFrame.ts_ms = 10, can_id = 0x100, dlc = 1, data = [3],
             CANFrame.src = ''node'', CANFrame.msg_id = ''c''\<rparr>])))
   \<and> map rate_exceeded (fst (check_all (\<lambda>_. []) (EnhancedIDS_init 10 2)
      [Eth \<lparr>EthernetPacket.ts_ms = 0, EthernetPacket.src = ''10.0.0.1'', dst = ''10.0.0.2'',
             payload = [1], EthernetPacket.msg_id = ''a'', priority = 0\<rparr>,
       Eth \<lparr>EthernetPacket.ts_ms = 6, EthernetPacket.src = ''10.0.0.1'', dst = ''10.0.0.2'',
             payload = [2], EthernetPacket.msg_id = ''b'', priority = 0\<rparr>,
       Eth \<lparr>EthernetPacket.ts_ms = 12, EthernetPacket.src = ''10.0.0.1'', dst = ''10.0.0.2'',
             payload = [3], EthernetPacket.msg_id = ''c'', priority = 0\<rparr>]))
       = [False, False, False]
   \<and> timestamps (snd (check (\<lambda>_. []) ((EnhancedIDS_init 10 2)\<lparr>timestamps := (\<lambda>_. [0, 3])\<rparr>)
        (Can \<lparr>CANFrame.ts_ms = 12, can_id = 0x100, dlc = 1, data = [1],
               CANFrame.src = ''node'', CANFrame.msg_id = ''a''\<rparr>))) (CanKey 0x100)
       = [3, 12]"
proof -
  note inst = rate_window [of
      "[Can \<lparr>CANFrame.ts_ms = 0, can_id = 0x100, dlc = 1, data = [1],
             CANFrame.src = ''node'', CANFrame.msg_id = ''a''\<rparr>,
       Can \<lparr>CANFrame.ts_ms = 5, can_id = 0x100, dlc = 1, data = [2],
             CANFrame.src = ''node'', CANFrame.msg_id = ''b''\<rparr>,
       Can \<lparr>CANFrame.ts_ms = 10, can_id = 0x100, dlc = 1, data = [3],
             CANFrame.src = ''node'', CANFrame.msg_id = ''c''\<rparr>]"
      "CanKey 0x100" "EnhancedIDS_init 10 2" "\<lambda>_. []"
      "[Eth \<lparr>EthernetPacket.ts_ms = 0, EthernetPacket.src = ''10.0.0.1'', dst = ''10.0.0.2'',
             payload = [1], EthernetPacket.msg_id = ''a'', priority = 0\<rparr>,
       Eth \<lparr>EthernetPacket.ts_ms = 6, EthernetPacket.src = ''10.0.0.1'', dst = ''10.0.0.2'',
             payload = [2], EthernetPacket.msg_id = ''b'', priority = 0\<rparr>,
       Eth \<lparr>EthernetPacket.ts_ms = 12, EthernetPacket.src = ''10.0.0.1'', dst = ''10.0.0.2'',
             payload = [3], EthernetPacket.msg_id = ''c'', priority = 0\<rparr>]"
      "EthKey ''10.0.0.1''" "EnhancedIDS_init 10 2"
      "(EnhancedIDS_init 10 2)\<lparr>timestamps := (\<lambda>_. [0, 3])\<rparr>"
      "Can \<lparr>CANFrame.ts_ms = 12, can_id = 0x100, dlc = 1, data = [1],
               CANFrame.src = ''node'', CANFrame.msg_id = ''a''\<rparr>"]
  have fls: "fl 10 = 10" "fl 12 = 12" "fl 9 = 9"
    using fl_of_int [of 10] fl_of_int [of 12] fl_of_int [of 9] by simp_all
  let ?vs = "fst (check_all (\<lambda>_. []) (EnhancedIDS_init 10 2)
      [Eth \<lparr>EthernetPacket.ts_ms = 0, EthernetPacket.src = ''10.0.0.1'', dst = ''10.0.0.2'',
             payload = [1], EthernetPacket.msg_id = ''a'', priority = 0\<rparr>,
       Eth \<lparr>EthernetPacket.ts_ms = 6, EthernetPacket.src = ''10.0.0.1'', dst = ''10.0.0.2'',
             payload = [2], EthernetPacket.msg_id = ''b'', priority = 0\<rparr>,
       Eth \<lparr>EthernetPacket.ts_ms = 12, EthernetPacket.src = ''10.0.0.1'', dst = ''10.0.0.2'',
             payload = [3], EthernetPacket.msg_id = ''c'', priority = 0\<rparr>])"
  have none: "\<forall>v\<in>set ?vs. \<not> rate_exceeded v"
    using inst by (simp add: EnhancedIDS_init_def fls)
  have "length ?vs = 3"
    by (simp add: check_all_counters del: check_all.simps)
  then obtain a b c where vs: "?vs = [a, b, c]"
    by (auto simp add: length_Suc_conv eval_nat_numeral)
  have flags: "map rate_exceeded ?vs = [False, False, False]"
    using none unfolding vs by simp
  show ?thesis
    using inst flags by (simp add: EnhancedIDS_init_def fls fl_zero)
qed

end
